theory Spec2Isabelle
  imports Main "HOL-Library.Sublist"
begin

section \<open>Strings\<close>

text \<open>
  A Python \<open>str\<close> is modelled as a \<open>string\<close>, a list of characters; a character stands
  for a code point below 256, so texts with code points beyond Latin-1 are outside the
  model.  The character classes below are Python's, restricted to that range.
\<close>

abbreviation BT :: char where "BT \<equiv> CHR 0x60"
abbreviation NL :: char where "NL \<equiv> CHR 0x0A"
abbreviation CR :: char where "CR \<equiv> CHR 0x0D"
abbreviation DQ :: char where "DQ \<equiv> CHR 0x22"
abbreviation SQ :: char where "SQ \<equiv> CHR 0x27"

text \<open>\<open>str.isspace\<close> on one character (also the class \<open>\s\<close> of \<open>re\<close>).\<close>

definition is_space :: "char \<Rightarrow> bool" where
  "is_space c = (c \<in> {CHR 0x09, CHR 0x0A, CHR 0x0B, CHR 0x0C, CHR 0x0D,
                       CHR 0x1C, CHR 0x1D, CHR 0x1E, CHR 0x1F, CHR 0x20, CHR 0x85, CHR 0xA0})"

text \<open>The line boundaries of \<open>str.splitlines\<close>.\<close>

definition is_linebreak :: "char \<Rightarrow> bool" where
  "is_linebreak c = (c \<in> {CHR 0x0A, CHR 0x0B, CHR 0x0C, CHR 0x0D,
                           CHR 0x1C, CHR 0x1D, CHR 0x1E, CHR 0x85})"

definition lstrip :: "string \<Rightarrow> string" where
  "lstrip s = dropWhile is_space s"

definition rstrip :: "string \<Rightarrow> string" where
  "rstrip s = rev (dropWhile is_space (rev s))"

text \<open>\<open>s.strip()\<close>\<close>

definition strip :: "string \<Rightarrow> string" where
  "strip s = rstrip (lstrip s)"

text \<open>\<open>s.rstrip("\r")\<close>\<close>

definition rstrip_cr :: "string \<Rightarrow> string" where
  "rstrip_cr s = rev (dropWhile (\<lambda>c. c = CR) (rev s))"

text \<open>\<open>s.startswith(p)\<close> and \<open>s.endswith(p)\<close>\<close>

definition startswith :: "string \<Rightarrow> string \<Rightarrow> bool" where
  "startswith p s = (take (length p) s = p)"

definition endswith :: "string \<Rightarrow> string \<Rightarrow> bool" where
  "endswith p s = (length p \<le> length s \<and> drop (length s - length p) s = p)"

text \<open>\<open>sep.join(parts)\<close>\<close>

fun str_join :: "string \<Rightarrow> string list \<Rightarrow> string" where
  "str_join sep [] = []"
| "str_join sep [p] = p"
| "str_join sep (p # q # ps) = p @ sep @ str_join sep (q # ps)"

text \<open>
  \<open>s.splitlines()\<close>: the text is cut at every line boundary, \<open>\r\n\<close> counting as one;
  the boundaries are dropped and a boundary at the very end opens no further line.
  \<open>cur\<close> is the line being read.
\<close>

fun splitlines_from :: "string \<Rightarrow> string \<Rightarrow> string list" where
  "splitlines_from cur [] = (if cur = [] then [] else [cur])"
| "splitlines_from cur [c] = (if is_linebreak c then [cur] else [cur @ [c]])"
| "splitlines_from cur (c # d # cs) =
     (if c = CR \<and> d = NL then cur # splitlines_from [] cs
      else if is_linebreak c then cur # splitlines_from [] (d # cs)
      else splitlines_from (cur @ [c]) (d # cs))"

definition splitlines :: "string \<Rightarrow> string list" where
  "splitlines s = splitlines_from [] s"

section \<open>HTML escaping\<close>

text \<open>\<open>s.replace(c, r)\<close> for a one-character pattern.\<close>

definition replace_chr :: "char \<Rightarrow> string \<Rightarrow> string \<Rightarrow> string" where
  "replace_chr c r s = concat (map (\<lambda>x. if x = c then r else [x]) s)"

text \<open>
  \<open>html.escape(s)\<close> with its default \<open>quote=True\<close>: five replacements in the library's
  order, the ampersand first.
\<close>

definition html_escape :: "string \<Rightarrow> string" where
  "html_escape s =
     replace_chr SQ ''&#x27;''
       (replace_chr DQ ''&quot;''
         (replace_chr (CHR ''>'') ''&gt;''
           (replace_chr (CHR ''<'') ''&lt;''
             (replace_chr (CHR ''&'') ''&amp;'' s))))"

text \<open>The same escaping, one character at a time.\<close>

definition esc_char :: "char \<Rightarrow> string" where
  "esc_char c =
     (if c = CHR ''&'' then ''&amp;''
      else if c = CHR ''<'' then ''&lt;''
      else if c = CHR ''>'' then ''&gt;''
      else if c = DQ then ''&quot;''
      else if c = SQ then ''&#x27;''
      else [c])"

section \<open>The inline code escaper\<close>

text \<open>
  A match of the pattern \<open>BT ([^BT]+) BT\<close> (BT the backquote) at the very start of \<open>s\<close>:
  the group and the text after the match.  The group is greedy, and a shorter group would be
  followed by a character that is no backquote, so the group is the whole run.
\<close>

definition match_span :: "string \<Rightarrow> (string \<times> string) option" where
  "match_span s =
     (case s of
        [] \<Rightarrow> None
      | c # rest \<Rightarrow>
          if c \<noteq> BT then None
          else (let inner = takeWhile (\<lambda>x. x \<noteq> BT) rest;
                    after = dropWhile (\<lambda>x. x \<noteq> BT) rest
                in if inner \<noteq> [] \<and> after \<noteq> [] then Some (inner, tl after) else None))"

text \<open>
  \<open>re.finditer\<close> over the text, left to right, matches not overlapping: the list of
  (text since the last match, group) for each match, and the text after the last match
  (\<open>text[last:]\<close>).  \<open>normal\<close> is the text read since the last match.
\<close>

function code_spans :: "string \<Rightarrow> string \<Rightarrow> (string \<times> string) list \<times> string" where
  "code_spans normal s =
     (case match_span s of
        Some (inner, rest) \<Rightarrow>
          (case code_spans [] rest of (ms, tl_text) \<Rightarrow> ((normal, inner) # ms, tl_text))
      | None \<Rightarrow>
          (case s of
             [] \<Rightarrow> ([], normal)
           | c # cs \<Rightarrow> code_spans (normal @ [c]) cs))"
  by pat_completeness auto
termination
proof (relation "measure (\<lambda>(normal, s). length s)")
  show "wf (measure (\<lambda>(normal, s). length s))" by simp
next
  fix normal s :: string and p :: "string \<times> string" and inner rest :: string
  assume m: "match_span s = Some p" and p: "(inner, rest) = p"
  then obtain c r where s: "s = c # r" by (cases s) (auto simp: match_span_def)
  from m p s have "rest = tl (dropWhile (\<lambda>x. x \<noteq> BT) r)"
    by (auto simp: match_span_def Let_def split: if_splits)
  moreover have "length (dropWhile (\<lambda>x. x \<noteq> BT) r) \<le> length r"
    by (rule length_dropWhile_le)
  ultimately have "length rest < length s" using s by simp
  then show "(([], rest), (normal, s)) \<in> measure (\<lambda>(normal, s). length s)" by simp
next
  fix normal s :: string and c :: char and cs :: string
  assume "s = c # cs"
  then show "((normal @ [c], cs), (normal, s)) \<in> measure (\<lambda>(normal, s). length s)" by simp
qed

declare code_spans.simps [simp del]

text \<open>\<open>_render_inline_code_escaped\<close>: the parts in order, joined by the empty string.\<close>

definition render_inline_code_escaped :: "string \<Rightarrow> string" where
  "render_inline_code_escaped text =
     (case code_spans [] text of
        (ms, tl_text) \<Rightarrow>
          concat (concat (map (\<lambda>(normal, inner).
                      [html_escape normal, ''<code>'' @ html_escape inner @ ''</code>'']) ms)
                  @ [html_escape tl_text]))"

section \<open>The markdown renderer\<close>

text \<open>
  One turn of the loop of \<open>render_simple_markdown_to_html\<close>; the state is
  (\<open>html_parts\<close>, \<open>in_list\<close>, \<open>in_code\<close>).
\<close>

definition md_line :: "string list \<times> bool \<times> bool \<Rightarrow> string \<Rightarrow> string list \<times> bool \<times> bool" where
  "md_line st raw =
     (case st of (parts, in_list, in_code) \<Rightarrow>
       (let line = rstrip_cr raw in
        if startswith [BT, BT, BT] (strip line) then
          (if in_code then (parts @ [''</code></pre>''], in_list, False)
           else ((if in_list then parts @ [''</ul>''] else parts) @ [''<pre><code>''], False, True))
        else if in_code then (parts @ [html_escape line], in_list, in_code)
        else
          (let stripped = strip line in
           if startswith ''* '' stripped \<or> startswith ''- '' stripped then
             ((if \<not> in_list then parts @ [''<ul>''] else parts)
                @ [''<li>'' @ render_inline_code_escaped (drop 2 stripped) @ ''</li>''],
              True, in_code)
           else
             (let parts' = (if in_list then parts @ [''</ul>''] else parts) in
              if stripped = [] then (parts' @ [''<br/>''], False, in_code)
              else (parts' @ [''<p>'' @ render_inline_code_escaped line @ ''</p>''],
                    False, in_code)))))"

definition md_parts :: "string \<Rightarrow> string list" where
  "md_parts text =
     (case foldl md_line ([], False, False) (splitlines text) of
        (parts, in_list, in_code) \<Rightarrow>
          (let parts1 = (if in_list then parts @ [''</ul>''] else parts) in
           if in_code then parts1 @ [''</code></pre>''] else parts1))"

definition render_simple_markdown_to_html :: "string \<Rightarrow> string" where
  "render_simple_markdown_to_html text =
     (if text = [] then [] else str_join [NL] (md_parts text))"

section \<open>Python values\<close>

text \<open>
  The values the extractors inspect.  A dictionary has string keys and keeps its insertion
  order; lookup is \<open>map_of\<close>.  An object is what the code can observe of it: its data
  attributes, what calling its \<open>to_dict\<close> method does (if it has one), and its string
  conversion.  Floating-point numbers are outside the model.
\<close>

datatype 'a call = Absent | Returns 'a | Raises

datatype pyval =
    PNone
  | PBool bool
  | PInt int
  | PStr string
  | PList "pyval list"
  | PDict "(string \<times> pyval) list"
  | PObj "(string \<times> pyval) list" "pyval call" string

datatype py_error = AttributeError | TypeError | OtherError

text \<open>Truth value testing (\<open>if x:\<close>, \<open>x or y\<close>).\<close>

fun truthy :: "pyval \<Rightarrow> bool" where
  "truthy PNone = False"
| "truthy (PBool b) = b"
| "truthy (PInt i) = (i \<noteq> 0)"
| "truthy (PStr s) = (s \<noteq> [])"
| "truthy (PList xs) = (xs \<noteq> [])"
| "truthy (PDict kvs) = (kvs \<noteq> [])"
| "truthy (PObj attrs td disp) = True"


text \<open>\<open>hasattr(v, name)\<close> and \<open>getattr(v, name, None)\<close> for a data attribute.\<close>

fun hasattr :: "pyval \<Rightarrow> string \<Rightarrow> bool" where
  "hasattr (PObj attrs td disp) name = (map_of attrs name \<noteq> None)"
| "hasattr v name = False"

fun getattr_or_none :: "pyval \<Rightarrow> string \<Rightarrow> pyval" where
  "getattr_or_none (PObj attrs td disp) name =
     (case map_of attrs name of Some x \<Rightarrow> x | None \<Rightarrow> PNone)"
| "getattr_or_none v name = PNone"

text \<open>\<open>d.get(key)\<close> and \<open>d.get(key, default)\<close> on a dictionary.\<close>

definition dict_get :: "(string \<times> pyval) list \<Rightarrow> string \<Rightarrow> pyval \<Rightarrow> pyval" where
  "dict_get kvs key dflt = (case map_of kvs key of Some x \<Rightarrow> x | None \<Rightarrow> dflt)"

text \<open>
  \<open>v.get(key, default)\<close> on any value: only a dictionary has the method, any other
  value raises \<open>AttributeError\<close>.
\<close>

fun py_get :: "pyval \<Rightarrow> string \<Rightarrow> pyval \<Rightarrow> py_error + pyval" where
  "py_get (PDict kvs) key dflt = Inr (dict_get kvs key dflt)"
| "py_get v key dflt = Inl AttributeError"

text \<open>
  \<open>for x in v\<close>: the elements of a list, the one-character strings of a string, the keys
  of a dictionary; any other value is not iterable.
\<close>

fun py_iter :: "pyval \<Rightarrow> py_error + pyval list" where
  "py_iter (PList xs) = Inr xs"
| "py_iter (PStr s) = Inr (map (\<lambda>c. PStr [c]) s)"
| "py_iter (PDict kvs) = Inr (map (\<lambda>kv. PStr (fst kv)) kvs)"
| "py_iter v = Inl TypeError"

text \<open>\<open>reversed(v)\<close>, defined for the same values.\<close>

definition py_reversed :: "pyval \<Rightarrow> py_error + pyval list" where
  "py_reversed v = (case py_iter v of Inl e \<Rightarrow> Inl e | Inr xs \<Rightarrow> Inr (rev xs))"

text \<open>\<open>isinstance(v, str) and v\<close>, and \<open>isinstance(v, str) and v.strip()\<close>.\<close>

fun nonempty_str :: "pyval \<Rightarrow> bool" where
  "nonempty_str (PStr s) = (s \<noteq> [])"
| "nonempty_str v = False"


section \<open>The output text extractor\<close>

text \<open>
  \<open>extract_output_text\<close>, the attribute path.  The inner loop over \<open>content_list\<close>:
  the first truthy \<open>text\<close> attribute.
\<close>

fun first_text :: "pyval list \<Rightarrow> pyval option" where
  "first_text [] = None"
| "first_text (c # cs) =
     (let text = getattr_or_none c ''text'' in
      if truthy text then Some text else first_text cs)"

text \<open>
  The outer loop, over the items already reversed.  A message item whose content holds no
  truthy text does not end the loop: the next item is read.  Iterating a content that is
  not iterable raises.
\<close>

fun scan_items :: "pyval list \<Rightarrow> py_error + pyval option" where
  "scan_items [] = Inr None"
| "scan_items (item # items) =
     (let item_type = getattr_or_none item ''type'';
          content_list = getattr_or_none item ''content''
      in if item_type = PStr ''message'' \<and> truthy content_list then
           (case py_iter content_list of
              Inl e \<Rightarrow> Inl e
            | Inr cs \<Rightarrow>
                (case first_text cs of
                   Some t \<Rightarrow> Inr (Some t)
                 | None \<Rightarrow> scan_items items))
         else scan_items items)"

text \<open>
  The body of the \<open>try\<close>: \<open>Inr (Some t)\<close> when it returns \<open>t\<close>, \<open>Inr None\<close> when it
  runs to its end, \<open>Inl e\<close> when it raises.
\<close>

definition attr_stage :: "pyval \<Rightarrow> py_error + pyval option" where
  "attr_stage result =
     (case (if hasattr result ''output'' \<and> truthy (getattr_or_none result ''output'')
            then (case py_reversed (getattr_or_none result ''output'') of
                    Inl e \<Rightarrow> Inl e
                  | Inr items \<Rightarrow> scan_items items)
            else Inr None) of
        Inl e \<Rightarrow> Inl e
      | Inr (Some t) \<Rightarrow> Inr (Some t)
      | Inr None \<Rightarrow>
          (if hasattr result ''output_text''
              \<and> nonempty_str (getattr_or_none result ''output_text'')
           then Inr (Some (getattr_or_none result ''output_text''))
           else Inr None))"

text \<open>
  The dictionary path, which stands outside the \<open>try\<close>: every \<open>.get\<close> on a value that is
  no dictionary, and every iteration of a value that is not iterable, raises to the caller.
\<close>

fun dict_first_text :: "pyval list \<Rightarrow> py_error + pyval option" where
  "dict_first_text [] = Inr None"
| "dict_first_text (c # cs) =
     (case py_get c ''text'' PNone of
        Inl e \<Rightarrow> Inl e
      | Inr text \<Rightarrow> if truthy text then Inr (Some text) else dict_first_text cs)"

fun dict_scan_items :: "pyval list \<Rightarrow> py_error + pyval option" where
  "dict_scan_items [] = Inr None"
| "dict_scan_items (item # items) =
     (case py_get item ''type'' PNone of
        Inl e \<Rightarrow> Inl e
      | Inr item_type \<Rightarrow>
          if item_type = PStr ''message'' then
            (case py_get item ''content'' (PList []) of
               Inl e \<Rightarrow> Inl e
             | Inr content \<Rightarrow>
                 (case py_iter content of
                    Inl e \<Rightarrow> Inl e
                  | Inr cs \<Rightarrow>
                      (case dict_first_text cs of
                         Inl e \<Rightarrow> Inl e
                       | Inr (Some t) \<Rightarrow> Inr (Some t)
                       | Inr None \<Rightarrow> dict_scan_items items)))
          else dict_scan_items items)"

definition dict_stage :: "pyval \<Rightarrow> py_error + pyval option" where
  "dict_stage result =
     (case result of
        PDict kvs \<Rightarrow>
          (case dict_get kvs ''output'' PNone of
             PList output \<Rightarrow> dict_scan_items (rev output)
           | _ \<Rightarrow> Inr None)
      | _ \<Rightarrow> Inr None)"

text \<open>
  \<open>extract_output_text\<close>.  \<open>str_of\<close> is the builtin \<open>str\<close>.  An exception of the
  attribute path is swallowed; \<open>Inl e\<close> is an exception that reaches the caller.
\<close>

definition extract_output_text :: "(pyval \<Rightarrow> string) \<Rightarrow> pyval \<Rightarrow> py_error + pyval" where
  "extract_output_text str_of result =
     (case (case attr_stage result of Inl e \<Rightarrow> None | Inr r \<Rightarrow> r) of
        Some t \<Rightarrow> Inr t
      | None \<Rightarrow>
          (case dict_stage result of
             Inl e \<Rightarrow> Inl e
           | Inr (Some t) \<Rightarrow> Inr t
           | Inr None \<Rightarrow> Inr (PStr (str_of result))))"

section \<open>The turn-result variant\<close>






section \<open>Escaped markup\<close>

text \<open>
  What the output of the inline code escaper may consist of: characters that are none of
  the five HTML special characters, the five character references that \<open>html.escape\<close>
  writes, and the inline-code tags.  In such a text no \<open><\<close>, \<open>>\<close> or \<open>&\<close> stands on its own.
\<close>

inductive escaped_html :: "string \<Rightarrow> bool" where
  esc_nil: "escaped_html []"
| esc_plain: "c \<notin> {CHR ''<'', CHR ''>'', CHR ''&'', DQ, SQ} \<Longrightarrow> escaped_html s
    \<Longrightarrow> escaped_html (c # s)"
| esc_entity: "e \<in> {''&amp;'', ''&lt;'', ''&gt;'', ''&quot;'', ''&#x27;''} \<Longrightarrow> escaped_html s
    \<Longrightarrow> escaped_html (e @ s)"
| esc_open: "escaped_html s \<Longrightarrow> escaped_html (''<code>'' @ s)"
| esc_close: "escaped_html s \<Longrightarrow> escaped_html (''</code>'' @ s)"

text \<open>The text that the escaper builds from the matches and the rest.\<close>

definition span_parts :: "(string \<times> string) list \<times> string \<Rightarrow> string" where
  "span_parts r = (case r of (ms, tl_text) \<Rightarrow>
          concat (concat (map (\<lambda>(normal, inner).
                      [html_escape normal, ''<code>'' @ html_escape inner @ ''</code>'']) ms)
                  @ [html_escape tl_text]))"

section \<open>Items that yield no text\<close>

text \<open>
  An item of an object's \<open>output\<close> that the scan passes over without an exception: it is
  no message, or its content is falsy, or its content is a list in which no entry carries
  a truthy \<open>text\<close>.
\<close>

definition obj_entry_silent :: "pyval \<Rightarrow> bool" where
  "obj_entry_silent x = (\<not> truthy (getattr_or_none x ''text''))"

definition obj_item_silent :: "pyval \<Rightarrow> bool" where
  "obj_item_silent p =
     (getattr_or_none p ''type'' \<noteq> PStr ''message''
      \<or> \<not> truthy (getattr_or_none p ''content'')
      \<or> (case getattr_or_none p ''content'' of
            PList cs \<Rightarrow> list_all obj_entry_silent cs
          | _ \<Rightarrow> False))"

text \<open>
  The same for the dictionary path, where every item and every entry that is read must be
  a dictionary.
\<close>

definition dict_entry_silent :: "pyval \<Rightarrow> bool" where
  "dict_entry_silent x =
     (case x of PDict xkv \<Rightarrow> \<not> truthy (dict_get xkv ''text'' PNone) | _ \<Rightarrow> False)"

definition dict_item_silent :: "pyval \<Rightarrow> bool" where
  "dict_item_silent p =
     (case p of
        PDict pkv \<Rightarrow>
          dict_get pkv ''type'' PNone \<noteq> PStr ''message''
          \<or> (case dict_get pkv ''content'' (PList []) of
                PList cs \<Rightarrow> list_all dict_entry_silent cs
              | _ \<Rightarrow> False)
      | _ \<Rightarrow> False)"

section \<open>Well-formed items of a turn export\<close>



section \<open>The builtin string conversion\<close>

text \<open>
  \<open>str\<close> and \<open>repr\<close> on the values of the model, as CPython writes them: decimal integers,
  \<open>True\<close>, \<open>False\<close>, \<open>None\<close>, strings in quotes with backslash escapes, lists and
  dictionaries with their elements' \<open>repr\<close>.  An object shows the text it carries.
\<close>

abbreviation BSL :: char where "BSL \<equiv> CHR 0x5C"
abbreviation TAB :: char where "TAB \<equiv> CHR 0x09"

definition hex_digit :: "nat \<Rightarrow> char" where
  "hex_digit n = ''0123456789abcdef'' ! (n mod 16)"

definition hex2 :: "char \<Rightarrow> string" where
  "hex2 c = [hex_digit ((of_char c :: nat) div 16), hex_digit ((of_char c :: nat) mod 16)]"

function dec_nat :: "nat \<Rightarrow> string" where
  "dec_nat n =
     (if n < 10 then [''0123456789'' ! n]
      else dec_nat (n div 10) @ [''0123456789'' ! (n mod 10)])"
  by pat_completeness auto
termination
  by (relation "measure (\<lambda>n. n)") auto

declare dec_nat.simps [simp del]

definition dec_int :: "int \<Rightarrow> string" where
  "dec_int i = (if i < 0 then CHR ''-'' # dec_nat (nat (- i)) else dec_nat (nat i))"

text \<open>
  \<open>str.isprintable\<close> on one character below 256: the ASCII characters from the space to
  the tilde, and the Latin-1 characters from 0xA1 on but the soft hyphen.
\<close>

definition is_printable :: "char \<Rightarrow> bool" where
  "is_printable c =
     (let n = (of_char c :: nat) in (32 \<le> n \<and> n < 127) \<or> (161 \<le> n \<and> n \<noteq> 173))"

text \<open>
  The quote of \<open>repr\<close> of a string is the single quote, unless the string has a single
  quote and no double quote.
\<close>

definition repr_quote :: "string \<Rightarrow> char" where
  "repr_quote s = (if SQ \<in> set s \<and> DQ \<notin> set s then DQ else SQ)"

definition repr_char :: "char \<Rightarrow> char \<Rightarrow> string" where
  "repr_char q c =
     (if c = q \<or> c = BSL then [BSL, c]
      else if c = TAB then [BSL, CHR ''t'']
      else if c = NL then [BSL, CHR ''n'']
      else if c = CR then [BSL, CHR ''r'']
      else if is_printable c then [c]
      else [BSL, CHR ''x''] @ hex2 c)"

definition repr_str :: "string \<Rightarrow> string" where
  "repr_str s = (let q = repr_quote s in [q] @ concat (map (repr_char q) s) @ [q])"

fun py_repr :: "pyval \<Rightarrow> string" where
  "py_repr PNone = ''None''"
| "py_repr (PBool b) = (if b then ''True'' else ''False'')"
| "py_repr (PInt i) = dec_int i"
| "py_repr (PStr s) = repr_str s"
| "py_repr (PList xs) = ''['' @ str_join '', '' (map py_repr xs) @ '']''"
| "py_repr (PDict kvs) =
     ''{'' @ str_join '', '' (map (\<lambda>kv. repr_str (fst kv) @ '': '' @ py_repr (snd kv)) kvs) @ ''}''"
| "py_repr (PObj attrs td disp) = disp"

text \<open>\<open>str(v)\<close>\<close>

fun py_str :: "pyval \<Rightarrow> string" where
  "py_str (PStr s) = s"
| "py_str v = py_repr v"

section \<open>The JSON encoder\<close>







section \<open>A JSON decoder\<close>

text \<open>
  \<open>json.loads\<close> for texts whose numbers are integers and whose strings have no \<open>\u\<close>
  escape: on such a text it yields the value the library yields, \<open>None\<close> standing for the
  \<open>JSONDecodeError\<close>.  The theorems on the structured-result extractor take the decoder as
  a parameter and hold for any decoder; this one serves the worked examples.  The first
  argument of the parsing functions bounds the number of nested calls.
\<close>

definition is_json_ws :: "char \<Rightarrow> bool" where
  "is_json_ws c = (c = CHR '' '' \<or> c = TAB \<or> c = NL \<or> c = CR)"

definition skip_ws :: "string \<Rightarrow> string" where
  "skip_ws s = dropWhile is_json_ws s"

definition is_digit :: "char \<Rightarrow> bool" where
  "is_digit c = (48 \<le> (of_char c :: nat) \<and> (of_char c :: nat) \<le> 57)"

definition digits_value :: "string \<Rightarrow> nat" where
  "digits_value ds = foldl (\<lambda>v c. 10 * v + ((of_char c :: nat) - 48)) 0 ds"

definition unescape :: "char \<Rightarrow> char option" where
  "unescape e =
     (if e = DQ then Some DQ
      else if e = BSL then Some BSL
      else if e = CHR ''/'' then Some (CHR ''/'')
      else if e = CHR ''b'' then Some (CHR 0x08)
      else if e = CHR ''f'' then Some (CHR 0x0C)
      else if e = CHR ''n'' then Some NL
      else if e = CHR ''r'' then Some CR
      else if e = CHR ''t'' then Some TAB
      else None)"

text \<open>The characters of a string after its opening quote, up to the closing quote.\<close>

fun parse_string_chars :: "string \<Rightarrow> string \<Rightarrow> (string \<times> string) option" where
  "parse_string_chars acc [] = None"
| "parse_string_chars acc [c] = (if c = DQ then Some (acc, []) else None)"
| "parse_string_chars acc (c # e # rest) =
     (if c = DQ then Some (acc, e # rest)
      else if c = BSL then
        (case unescape e of
           Some x \<Rightarrow> parse_string_chars (acc @ [x]) rest
         | None \<Rightarrow> None)
      else if (of_char c :: nat) < 32 then None
      else parse_string_chars (acc @ [c]) (e # rest))"

definition parse_int :: "string \<Rightarrow> (int \<times> string) option" where
  "parse_int s =
     (let neg = (s \<noteq> [] \<and> hd s = CHR ''-'');
          s1 = (if neg then tl s else s);
          ds = takeWhile is_digit s1;
          rest = dropWhile is_digit s1
      in if ds = [] then None
         else if 1 < length ds \<and> hd ds = CHR ''0'' then None
         else if rest \<noteq> [] \<and> hd rest \<in> {CHR ''.'', CHR ''e'', CHR ''E''} then None
         else Some (if neg then - int (digits_value ds) else int (digits_value ds), rest))"

text \<open>Assignment to a key of a dictionary: a key that is present keeps its place.\<close>

fun dict_set :: "(string \<times> pyval) list \<Rightarrow> string \<Rightarrow> pyval \<Rightarrow> (string \<times> pyval) list" where
  "dict_set [] key v = [(key, v)]"
| "dict_set (kv # kvs) key v =
     (if fst kv = key then (key, v) # kvs else kv # dict_set kvs key v)"

fun parse_value :: "nat \<Rightarrow> string \<Rightarrow> (pyval \<times> string) option"
  and parse_elements :: "nat \<Rightarrow> pyval list \<Rightarrow> string \<Rightarrow> (pyval list \<times> string) option"
  and parse_members ::
    "nat \<Rightarrow> (string \<times> pyval) list \<Rightarrow> string \<Rightarrow> ((string \<times> pyval) list \<times> string) option"
where
  "parse_value 0 s = None"
| "parse_value (Suc n) s =
     (case s of
        [] \<Rightarrow> None
      | c # cs \<Rightarrow>
          if c = DQ then
            (case parse_string_chars [] cs of
               Some (str, rest) \<Rightarrow> Some (PStr str, rest)
             | None \<Rightarrow> None)
          else if c = CHR ''['' then
            (if startswith '']'' (skip_ws cs) then Some (PList [], tl (skip_ws cs))
             else (case parse_elements n [] (skip_ws cs) of
                     Some (xs, rest) \<Rightarrow> Some (PList xs, rest)
                   | None \<Rightarrow> None))
          else if c = CHR ''{'' then
            (if startswith ''}'' (skip_ws cs) then Some (PDict [], tl (skip_ws cs))
             else (case parse_members n [] (skip_ws cs) of
                     Some (kvs, rest) \<Rightarrow> Some (PDict kvs, rest)
                   | None \<Rightarrow> None))
          else if startswith ''true'' s then Some (PBool True, drop 4 s)
          else if startswith ''false'' s then Some (PBool False, drop 5 s)
          else if startswith ''null'' s then Some (PNone, drop 4 s)
          else (case parse_int s of
                  Some (i, rest) \<Rightarrow> Some (PInt i, rest)
                | None \<Rightarrow> None))"
| "parse_elements 0 acc s = None"
| "parse_elements (Suc n) acc s =
     (case parse_value n s of
        None \<Rightarrow> None
      | Some (v, rest) \<Rightarrow>
          (case skip_ws rest of
             [] \<Rightarrow> None
           | c # cs \<Rightarrow>
               if c = CHR '','' then parse_elements n (acc @ [v]) (skip_ws cs)
               else if c = CHR '']'' then Some (acc @ [v], cs)
               else None))"
| "parse_members 0 acc s = None"
| "parse_members (Suc n) acc s =
     (case s of
        [] \<Rightarrow> None
      | c # cs \<Rightarrow>
          if c \<noteq> DQ then None
          else
            (case parse_string_chars [] cs of
               None \<Rightarrow> None
             | Some (key, rest) \<Rightarrow>
                 (case skip_ws rest of
                    [] \<Rightarrow> None
                  | d # ds \<Rightarrow>
                      if d \<noteq> CHR '':'' then None
                      else
                        (case parse_value n (skip_ws ds) of
                           None \<Rightarrow> None
                         | Some (v, rest2) \<Rightarrow>
                             (case skip_ws rest2 of
                                [] \<Rightarrow> None
                              | e # es \<Rightarrow>
                                  if e = CHR '','' then
                                    parse_members n (dict_set acc key v) (skip_ws es)
                                  else if e = CHR ''}'' then Some (dict_set acc key v, es)
                                  else None)))))"

definition json_loads :: "string \<Rightarrow> pyval option" where
  "json_loads s =
     (case parse_value (Suc (length s)) (skip_ws s) of
        Some (v, rest) \<Rightarrow> (if skip_ws rest = [] then Some v else None)
      | None \<Rightarrow> None)"

section \<open>The incident question\<close>





section \<open>The structured-result extractor\<close>

text \<open>
  The class \<open>\w\<close> of \<open>re\<close> on a character below 256: the ASCII letters, digits and the
  underscore, and the Latin-1 letters and numeric characters.  The class \<open>[\w-]\<close>.
\<close>

definition is_word_char :: "char \<Rightarrow> bool" where
  "is_word_char c =
     (let n = (of_char c :: nat) in
        (48 \<le> n \<and> n \<le> 57) \<or> (65 \<le> n \<and> n \<le> 90) \<or> n = 95 \<or> (97 \<le> n \<and> n \<le> 122)
        \<or> n = 170 \<or> n = 178 \<or> n = 179 \<or> n = 181 \<or> n = 185 \<or> n = 186
        \<or> n = 188 \<or> n = 189 \<or> n = 190
        \<or> (192 \<le> n \<and> n \<le> 214) \<or> (216 \<le> n \<and> n \<le> 246) \<or> 248 \<le> n)"

definition is_tag_char :: "char \<Rightarrow> bool" where
  "is_tag_char c = (is_word_char c \<or> c = CHR ''-'')"

text \<open>
  \<open>re.sub\<close> of the pattern \<open>BT{3,}[\w-]*\<close> by the empty string: at a run of three or more
  backquotes the whole run and the tag characters after it are dropped (both parts are
  greedy, and a shorter match is never needed); any other character is kept.
\<close>

function strip_fences :: "string \<Rightarrow> string" where
  "strip_fences s =
     (case s of
        [] \<Rightarrow> []
      | c # cs \<Rightarrow>
          if startswith [BT, BT, BT] s
          then strip_fences (dropWhile is_tag_char (dropWhile (\<lambda>x. x = BT) s))
          else c # strip_fences cs)"
  by pat_completeness auto
termination
proof (relation "measure length")
  show "wf (measure length)" by simp
next
  fix s :: string and c :: char and cs :: string
  assume s: "s = c # cs" and f: "startswith [BT, BT, BT] s"
  from s f have "c = BT" by (simp add: startswith_def)
  then have "length (dropWhile (\<lambda>x. x = BT) s) < length s"
    using s length_dropWhile_le [of "\<lambda>x. x = BT" cs] by simp
  moreover have "length (dropWhile is_tag_char (dropWhile (\<lambda>x. x = BT) s))
                 \<le> length (dropWhile (\<lambda>x. x = BT) s)"
    by (rule length_dropWhile_le)
  ultimately show "(dropWhile is_tag_char (dropWhile (\<lambda>x. x = BT) s), s) \<in> measure length"
    by simp
next
  fix s :: string and c :: char and cs :: string
  assume "s = c # cs"
  then show "(cs, s) \<in> measure length" by simp
qed

declare strip_fences.simps [simp del]

text \<open>
  \<open>s.replace(old, new)\<close> for a pattern that is not empty: the occurrences are found from
  the left and do not overlap.
\<close>

function replace_str :: "string \<Rightarrow> string \<Rightarrow> string \<Rightarrow> string" where
  "replace_str old new s =
     (case s of
        [] \<Rightarrow> []
      | c # cs \<Rightarrow>
          if old \<noteq> [] \<and> startswith old s
          then new @ replace_str old new (drop (length old) s)
          else c # replace_str old new cs)"
  by pat_completeness auto
termination
  by (relation "measure (\<lambda>(old, new, s). length s)") auto

declare replace_str.simps [simp del]

text \<open>The working copy \<open>raw_for_json\<close>.\<close>

definition normalise :: "string \<Rightarrow> string" where
  "normalise raw_text =
     replace_str ''<br>'' [NL] (replace_str ''<br/>'' [NL] (strip_fences raw_text))"

text \<open>\<open>s.find(p)\<close>: the index of the first occurrence, \<open>None\<close> for -1.\<close>

fun find_from :: "string \<Rightarrow> nat \<Rightarrow> string \<Rightarrow> nat option" where
  "find_from p i [] = (if p = [] then Some i else None)"
| "find_from p i (c # cs) =
     (if startswith p (c # cs) then Some i else find_from p (Suc i) cs)"

definition str_find :: "string \<Rightarrow> string \<Rightarrow> nat option" where
  "str_find p s = find_from p 0 s"

definition contains :: "string \<Rightarrow> string \<Rightarrow> bool" where
  "contains p s = (str_find p s \<noteq> None)"

definition JSON_START :: string where
  "JSON_START = ''### JSON_START''"

definition JSON_END :: string where
  "JSON_END = ''### JSON_END''"

definition ANCHOR_KEY :: string where
  "ANCHOR_KEY = ''proposed_remediation_via_aap''"

text \<open>
  The greedy part of the marker pattern, read after the opening brace: the longest text
  that ends in a closing brace and is followed, anywhere later, by the end marker.
\<close>

fun greedy_group :: "string \<Rightarrow> string option" where
  "greedy_group [] = None"
| "greedy_group (c # cs) =
     (case greedy_group cs of
        Some g \<Rightarrow> Some (c # g)
      | None \<Rightarrow> if c = CHR ''}'' \<and> contains JSON_END cs then Some [c] else None)"

text \<open>
  \<open>re.search\<close> of the marker pattern, start marker, anything (lazy), a group from an
  opening brace to a closing brace (greedy), anything (lazy), end marker: the group.  A match
  starts at the first start marker (a later start marker admits no match that the first
  does not), the group opens at the first opening brace after it (a later brace admits no
  closing brace that the first does not), and it is as long as the end marker allows.
\<close>

definition marker_search :: "string \<Rightarrow> string option" where
  "marker_search s =
     (case str_find JSON_START s of
        None \<Rightarrow> None
      | Some a \<Rightarrow>
          (case dropWhile (\<lambda>x. x \<noteq> CHR ''{'') (drop (a + length JSON_START) s) of
             [] \<Rightarrow> None
           | b # body \<Rightarrow>
               (case greedy_group body of
                  None \<Rightarrow> None
                | Some g \<Rightarrow> Some (b # g))))"

text \<open>
  The lazy group of the fenced pattern, read after the opening brace: the shortest text
  that ends in a closing brace after which, white space apart, three backquotes follow.
\<close>

fun lazy_group :: "string \<Rightarrow> string option" where
  "lazy_group [] = None"
| "lazy_group (c # cs) =
     (if c = CHR ''}'' \<and> startswith [BT, BT, BT] (dropWhile is_space cs) then Some [c]
      else (case lazy_group cs of Some g \<Rightarrow> Some (c # g) | None \<Rightarrow> None))"

text \<open>
  \<open>re.search\<close> of the fenced pattern, three backquotes and \<open>json\<close>, white space, a group
  from an opening brace to a closing brace (lazy), white space, three backquotes: the group
  of the leftmost match.
\<close>

fun fenced_search :: "string \<Rightarrow> string option" where
  "fenced_search [] = None"
| "fenced_search (c # cs) =
     (if startswith ([BT, BT, BT] @ ''json'') (c # cs) then
        (case dropWhile is_space (drop 7 (c # cs)) of
           [] \<Rightarrow> fenced_search cs
         | b # body \<Rightarrow>
             if b = CHR ''{'' then
               (case lazy_group body of
                  Some g \<Rightarrow> Some (b # g)
                | None \<Rightarrow> fenced_search cs)
             else fenced_search cs)
      else fenced_search cs)"

text \<open>
  The backward scan from the key to the nearest opening brace: its index, \<open>None\<close> when the
  scan runs past the start of the text (\<open>i = -1\<close>).
\<close>

fun scan_back :: "string \<Rightarrow> nat \<Rightarrow> nat option" where
  "scan_back s 0 = (if s \<noteq> [] \<and> s ! 0 = CHR ''{'' then Some 0 else None)"
| "scan_back s (Suc i) = (if s ! Suc i = CHR ''{'' then Some (Suc i) else scan_back s i)"

text \<open>
  The forward scan with the brace balance, over the text from index \<open>j\<close> on: the index
  after the closing brace that brings the balance to zero, \<open>None\<close> when the loop ends
  without \<open>break\<close>.
\<close>

fun scan_forward :: "int \<Rightarrow> nat \<Rightarrow> string \<Rightarrow> nat option" where
  "scan_forward brace j [] = None"
| "scan_forward brace j (ch # cs) =
     (if ch = CHR ''{'' then scan_forward (brace + 1) (Suc j) cs
      else if ch = CHR ''}'' then
        (if brace - 1 = 0 then Some (Suc j) else scan_forward (brace - 1) (Suc j) cs)
      else scan_forward brace (Suc j) cs)"

text \<open>The candidate of the third strategy, \<open>raw_for_json[start_idx:end_idx].strip()\<close>.\<close>

definition anchor_candidate :: "string \<Rightarrow> string" where
  "anchor_candidate s =
     (case str_find ANCHOR_KEY s of
        None \<Rightarrow> strip s
      | Some key_idx \<Rightarrow>
          (let start_idx = (case scan_back s key_idx of Some i \<Rightarrow> i | None \<Rightarrow> 0);
               end_idx = (case scan_forward 0 start_idx (drop start_idx s) of
                            Some e \<Rightarrow> e
                          | None \<Rightarrow> length s)
           in strip (take (end_idx - start_idx) (drop start_idx s))))"

text \<open>
  The three strategies, each from the value of \<open>rag_json\<close> before it to the value after
  it; \<open>PNone\<close> is Python's \<open>None\<close>.  \<open>loads\<close> is \<open>json.loads\<close>, \<open>None\<close> standing for an
  exception.
\<close>

definition marker_stage :: "(string \<Rightarrow> pyval option) \<Rightarrow> string \<Rightarrow> pyval" where
  "marker_stage loads raw_for_json =
     (case marker_search raw_for_json of
        None \<Rightarrow> PNone
      | Some g \<Rightarrow> (case loads (strip g) of Some v \<Rightarrow> v | None \<Rightarrow> PNone))"

definition fenced_stage :: "(string \<Rightarrow> pyval option) \<Rightarrow> string \<Rightarrow> pyval \<Rightarrow> pyval" where
  "fenced_stage loads raw_for_json rag_json =
     (if rag_json = PNone then
        (case fenced_search raw_for_json of
           None \<Rightarrow> rag_json
         | Some g \<Rightarrow> (case loads (strip g) of Some v \<Rightarrow> v | None \<Rightarrow> PNone))
      else rag_json)"

definition anchor_stage :: "(string \<Rightarrow> pyval option) \<Rightarrow> string \<Rightarrow> pyval \<Rightarrow> pyval" where
  "anchor_stage loads raw_for_json rag_json =
     (if rag_json = PNone then
        (let candidate = anchor_candidate raw_for_json in
         if startswith ''{'' candidate \<and> endswith ''}'' candidate
         then (case loads candidate of Some v \<Rightarrow> v | None \<Rightarrow> rag_json)
         else rag_json)
      else rag_json)"

text \<open>
  The explanation: cut at the first start marker of the original text, and trimmed, when
  the marker pattern matched the working copy.
\<close>

definition explanation_of :: "string \<Rightarrow> string" where
  "explanation_of raw_text =
     (case marker_search (normalise raw_text) of
        None \<Rightarrow> raw_text
      | Some g \<Rightarrow>
          (case str_find JSON_START raw_text of
             Some k \<Rightarrow> strip (take k raw_text)
           | None \<Rightarrow> raw_text))"

text \<open>
  The dual-output extraction of \<open>_run_pipeline\<close> (the spec's \<open>split\<close>), from \<open>raw_text\<close> to
  (\<open>rag_explanation\<close>, \<open>rag_json\<close>).
\<close>

definition split_rag_output :: "(string \<Rightarrow> pyval option) \<Rightarrow> string \<Rightarrow> string \<times> pyval" where
  "split_rag_output loads raw_text =
     (let raw_for_json = normalise raw_text in
      (explanation_of raw_text,
       anchor_stage loads raw_for_json
         (fenced_stage loads raw_for_json
           (marker_stage loads raw_for_json))))"

text \<open>A text with three backquotes in a row.\<close>

definition has_fence :: "string \<Rightarrow> bool" where
  "has_fence s = (\<exists>a b. s = a @ [BT, BT, BT] @ b)"

section \<open>The report assembler\<close>





















section \<open>Properties of the inline code escaper\<close>

lemma replace_chr_append: "replace_chr c r (a @ b) = replace_chr c r a @ replace_chr c r b"
  by (simp add: replace_chr_def)

lemma replace_chr_Cons: "replace_chr c r (x # s) = (if x = c then r else [x]) @ replace_chr c r s"
  by (simp add: replace_chr_def)

lemma replace_chr_Nil: "replace_chr c r [] = []"
  by (simp add: replace_chr_def)

lemma html_escape_Nil: "html_escape [] = []"
  by (simp add: html_escape_def replace_chr_Nil)

lemma html_escape_Cons: "html_escape (c # s) = esc_char c @ html_escape s"
  by (simp add: html_escape_def esc_char_def replace_chr_Cons replace_chr_append replace_chr_Nil)

lemma html_escape_append: "html_escape (a @ b) = html_escape a @ html_escape b"
  by (induction a) (simp_all add: html_escape_Nil html_escape_Cons)

lemma html_escape_concat: "html_escape s = concat (map esc_char s)"
  by (induction s) (simp_all add: html_escape_Nil html_escape_Cons)

lemma escaped_html_append: "escaped_html a \<Longrightarrow> escaped_html b \<Longrightarrow> escaped_html (a @ b)"
proof (induction a rule: escaped_html.induct)
  case esc_nil
  then show ?case by simp
next
  case (esc_plain c s)
  then show ?case by (simp add: escaped_html.esc_plain)
next
  case (esc_entity e s)
  then have "escaped_html (e @ (s @ b))" using escaped_html.esc_entity [of e "s @ b"] by blast
  then show ?case by simp
next
  case (esc_open s)
  then have "escaped_html (''<code>'' @ (s @ b))" using escaped_html.esc_open [of "s @ b"] by blast
  then show ?case by simp
next
  case (esc_close s)
  then have "escaped_html (''</code>'' @ (s @ b))" using escaped_html.esc_close [of "s @ b"] by blast
  then show ?case by simp
qed

lemma escaped_esc_char: "escaped_html s \<Longrightarrow> escaped_html (esc_char c @ s)"
proof -
  assume s: "escaped_html s"
  consider "c \<in> {CHR ''<'', CHR ''>'', CHR ''&'', DQ, SQ}" | "c \<notin> {CHR ''<'', CHR ''>'', CHR ''&'', DQ, SQ}" by blast
  then show ?thesis
  proof cases
    case 1
    then have "esc_char c \<in> {''&amp;'', ''&lt;'', ''&gt;'', ''&quot;'', ''&#x27;''}"
      by (auto simp: esc_char_def)
    then show ?thesis using s by (rule esc_entity)
  next
    case 2
    then have "esc_char c = [c]" by (auto simp: esc_char_def)
    then show ?thesis using 2 s by (simp add: esc_plain)
  qed
qed

lemma escaped_html_escape: "escaped_html (html_escape s)"
  by (induction s) (simp_all add: html_escape_Nil html_escape_Cons esc_nil escaped_esc_char)

lemma escaped_code_spans: "escaped_html (span_parts (code_spans normal s))"
proof (induction normal s rule: code_spans.induct)
  case (1 normal s)
  show ?case
  proof (cases "match_span s")
    case None
    show ?thesis
    proof (cases s)
      case Nil
      then show ?thesis using None by (simp add: code_spans.simps span_parts_def escaped_html_escape)
    next
      case (Cons c cs)
      have "code_spans normal s = code_spans (normal @ [c]) cs"
        using None Cons by (subst code_spans.simps) simp
      then show ?thesis using "1.IH"(1) [OF None Cons] by simp
    qed
  next
    case (Some p)
    obtain inner rest where p: "p = (inner, rest)" by (cases p)
    obtain ms t where r: "code_spans [] rest = (ms, t)" by (cases "code_spans [] rest")
    have ih: "escaped_html (span_parts (ms, t))" using "1.IH"(2) [OF Some p [symmetric]] r by simp
    have "span_parts (code_spans normal s) = html_escape normal @ ''<code>'' @ html_escape inner @ ''</code>'' @ span_parts (ms, t)"
      using Some p r by (simp add: code_spans.simps span_parts_def)
    moreover have "escaped_html (html_escape normal @ ''<code>'' @ (html_escape inner @ ''</code>'' @ span_parts (ms, t)))"
      by (intro escaped_html_append escaped_html_escape esc_open esc_close ih)
    ultimately show ?thesis by simp
  qed
qed

lemma match_span_not_bt: "c \<noteq> BT \<Longrightarrow> match_span (c # s) = None"
  by (simp add: match_span_def)

lemma code_spans_plain: "BT \<notin> set a \<Longrightarrow> code_spans normal (a @ s) = code_spans (normal @ a) s"
proof (induction a arbitrary: normal)
  case Nil
  then show ?case by simp
next
  case (Cons c a)
  then have "c \<noteq> BT" by auto
  then have "code_spans normal ((c # a) @ s) = code_spans (normal @ [c]) (a @ s)"
    by (subst code_spans.simps) (simp add: match_span_not_bt)
  then show ?case using Cons by simp
qed

lemma match_span_hit: "inner \<noteq> [] \<Longrightarrow> BT \<notin> set inner \<Longrightarrow> match_span (BT # inner @ BT # rest) = Some (inner, rest)"
proof -
  assume ne: "inner \<noteq> []" and nb: "BT \<notin> set inner"
  have a: "\<forall>x\<in>set inner. x \<noteq> BT" using nb by auto
  have t: "takeWhile (\<lambda>x. x \<noteq> BT) (inner @ BT # rest) = inner"
    using a by simp
  have d: "dropWhile (\<lambda>x. x \<noteq> BT) (inner @ BT # rest) = BT # rest"
    using a by simp
  show ?thesis using ne t d by (simp add: match_span_def)
qed

lemma match_span_open: "BT \<notin> set b \<Longrightarrow> match_span (BT # b) = None"
  by (simp add: match_span_def Let_def)

lemma match_span_Nil: "match_span [] = None"
  by (simp add: match_span_def)

lemma render_no_bt: "BT \<notin> set a \<Longrightarrow> render_inline_code_escaped a = html_escape a"
  using code_spans_plain [of a "[]" "[]"]
  by (simp add: render_inline_code_escaped_def code_spans.simps [of _ "[]"] match_span_Nil)

lemma render_span: "BT \<notin> set a \<Longrightarrow> inner \<noteq> [] \<Longrightarrow> BT \<notin> set inner \<Longrightarrow>
   render_inline_code_escaped (a @ [BT] @ inner @ [BT] @ rest) =
     html_escape a @ ''<code>'' @ html_escape inner @ ''</code>'' @ render_inline_code_escaped rest"
  using code_spans_plain [of a "[]" "BT # inner @ BT # rest"]
  by (simp add: render_inline_code_escaped_def code_spans.simps [of _ "BT # inner @ BT # rest"] match_span_hit split: prod.splits)

lemma render_unmatched: "BT \<notin> set a \<Longrightarrow> BT \<notin> set b \<Longrightarrow>
   render_inline_code_escaped (a @ [BT] @ b) = html_escape a @ [BT] @ html_escape b"
  using code_spans_plain [of a "[]" "BT # b"] code_spans_plain [of b "a @ [BT]" "[]"]
  by (simp add: render_inline_code_escaped_def code_spans.simps [of _ "BT # b"] code_spans.simps [of _ "[]"] match_span_open match_span_Nil html_escape_append html_escape_Cons esc_char_def html_escape_Nil)

lemma span_parts_normal_all:
  fixes m :: string
  shows "\<forall>n. span_parts (code_spans n s) = html_escape n @ span_parts (code_spans [] s)"
proof (induction m s rule: code_spans.induct)
  case (1 normal s)
  show ?case
  proof (cases "match_span s")
    case None
    show ?thesis
    proof (cases s)
      case Nil
      have "\<And>n. code_spans n s = ([], n)"
        using None Nil by (subst code_spans.simps) simp
      then show ?thesis by (simp add: span_parts_def html_escape_Nil)
    next
      case (Cons c cs)
      have ih: "\<forall>n. span_parts (code_spans n cs) = html_escape n @ span_parts (code_spans [] cs)"
        using "1.IH"(1) [OF None Cons] .
      have step: "\<And>n. code_spans n s = code_spans (n @ [c]) cs"
        using None Cons by (subst code_spans.simps) simp
      show ?thesis
      proof
        fix n
        have a: "span_parts (code_spans (n @ [c]) cs)
                 = html_escape (n @ [c]) @ span_parts (code_spans [] cs)"
          using ih by blast
        have b: "span_parts (code_spans ([] @ [c]) cs)
                 = html_escape ([] @ [c]) @ span_parts (code_spans [] cs)"
          using ih by blast
        have "span_parts (code_spans n s) = html_escape (n @ [c]) @ span_parts (code_spans [] cs)"
          unfolding step [of n] by (rule a)
        moreover have "span_parts (code_spans [] s)
                 = html_escape ([] @ [c]) @ span_parts (code_spans [] cs)"
          unfolding step [of "[]"] by (rule b)
        ultimately show "span_parts (code_spans n s) = html_escape n @ span_parts (code_spans [] s)"
          by (simp only: html_escape_append append_Nil append_assoc)
      qed
    qed
  next
    case (Some p)
    obtain inner rest where p: "p = (inner, rest)" by (cases p)
    obtain ms t where r: "code_spans [] rest = (ms, t)" by (cases "code_spans [] rest")
    have "\<And>n. code_spans n s = ((n, inner) # ms, t)"
      using Some p r by (subst code_spans.simps) simp
    then show ?thesis by (simp add: span_parts_def html_escape_Nil)
  qed
qed

lemma render_span_parts: "render_inline_code_escaped s = span_parts (code_spans [] s)"
  unfolding render_inline_code_escaped_def span_parts_def ..

lemma render_double_bt:
  "BT \<notin> set a \<Longrightarrow>
   render_inline_code_escaped (a @ [BT, BT] @ rest)
     = html_escape a @ [BT] @ render_inline_code_escaped ([BT] @ rest)"
proof -
  assume a: "BT \<notin> set a"
  have m: "match_span (BT # BT # rest) = None" by (simp add: match_span_def)
  have 1: "code_spans [] (a @ [BT, BT] @ rest) = code_spans a (BT # BT # rest)"
    using code_spans_plain [OF a, of "[]" "BT # BT # rest"] by simp
  have 2: "code_spans a (BT # BT # rest) = code_spans (a @ [BT]) (BT # rest)"
    using m by (subst code_spans.simps) simp
  have 3: "span_parts (code_spans (a @ [BT]) (BT # rest))
     = html_escape (a @ [BT]) @ span_parts (code_spans [] (BT # rest))"
    using span_parts_normal_all by blast
  have 4: "html_escape (a @ [BT]) = html_escape a @ [BT]"
    by (simp add: html_escape_append html_escape_Cons html_escape_Nil esc_char_def)
  have "render_inline_code_escaped (a @ [BT, BT] @ rest)
        = html_escape a @ [BT] @ span_parts (code_spans [] (BT # rest))"
    unfolding render_span_parts 1 2 3 4 by simp
  then show ?thesis by (simp add: render_span_parts)
qed

text \<open>
  Claim C9.  For every input string the inline code escaper yields escaped markup: no
  \<open><\<close>, \<open>>\<close> or \<open>&\<close> of the input reaches the output unescaped.  A text without backquote
  is HTML-escaped as a whole; a span between two backquotes is HTML-escaped and wrapped in
  the inline-code tag, the text before it is HTML-escaped, and the text after it is
  rendered in the same way; a backquote that is followed at once by another one stays a
  literal backquote and the rendering goes on from the second; a single backquote with no
  partner stays a literal backquote between two HTML-escaped texts.
\<close>

theorem C9_inline_code_escaper:
  "escaped_html (render_inline_code_escaped text)
   \<and> (BT \<notin> set text \<longrightarrow> render_inline_code_escaped text = html_escape text)
   \<and> (\<forall>a inner rest.
         text = a @ [BT] @ inner @ [BT] @ rest \<and> BT \<notin> set a \<and> inner \<noteq> [] \<and> BT \<notin> set inner
         \<longrightarrow> render_inline_code_escaped text =
               html_escape a @ ''<code>'' @ html_escape inner @ ''</code>''
                 @ render_inline_code_escaped rest)
   \<and> (\<forall>a rest. text = a @ [BT, BT] @ rest \<and> BT \<notin> set a
         \<longrightarrow> render_inline_code_escaped text =
               html_escape a @ [BT] @ render_inline_code_escaped ([BT] @ rest))
   \<and> (\<forall>a b. text = a @ [BT] @ b \<and> BT \<notin> set a \<and> BT \<notin> set b
         \<longrightarrow> render_inline_code_escaped text = html_escape a @ [BT] @ html_escape b)"
proof -
  have "escaped_html (span_parts (code_spans [] text))"
    by (rule escaped_code_spans)
  then have "escaped_html (render_inline_code_escaped text)"
    by (simp add: span_parts_def render_inline_code_escaped_def)
  then show ?thesis
    using render_no_bt render_span render_unmatched render_double_bt by blast
qed

theorem C9_inline_code_escaper_witness:
  "render_inline_code_escaped (''x<'' @ [BT] @ ''y&'' @ [BT] @ ''z'') = ''x&lt;<code>y&amp;</code>z''
   \<and> escaped_html ''x&lt;<code>y&amp;</code>z''
   \<and> render_inline_code_escaped (''x>'' @ [BT] @ ''z'') = ''x&gt;'' @ [BT] @ ''z''"
proof -
  have z: "render_inline_code_escaped ''z'' = ''z''"
    using C9_inline_code_escaper [of "''z''"] by (simp add: html_escape_Cons html_escape_Nil esc_char_def)
  have 1: "render_inline_code_escaped (''x<'' @ [BT] @ ''y&'' @ [BT] @ ''z'')
           = html_escape ''x<'' @ ''<code>'' @ html_escape ''y&'' @ ''</code>''
               @ render_inline_code_escaped ''z''"
    using C9_inline_code_escaper [of "''x<'' @ [BT] @ ''y&'' @ [BT] @ ''z''",
        THEN conjunct2, THEN conjunct2, THEN conjunct1, rule_format, of "''x<''" "''y&''" "''z''"]
    by simp
  have 2: "escaped_html (render_inline_code_escaped (''x<'' @ [BT] @ ''y&'' @ [BT] @ ''z''))"
    using C9_inline_code_escaper [of "''x<'' @ [BT] @ ''y&'' @ [BT] @ ''z''"] by blast
  have 3: "render_inline_code_escaped (''x>'' @ [BT] @ ''z'') = html_escape ''x>'' @ [BT] @ html_escape ''z''"
    using C9_inline_code_escaper [of "''x>'' @ [BT] @ ''z''",
        THEN conjunct2, THEN conjunct2, THEN conjunct2, THEN conjunct2, rule_format,
        of "''x>''" "''z''"]
    by simp
  have e: "html_escape ''x<'' = ''x&lt;''" "html_escape ''y&'' = ''y&amp;''"
          "html_escape ''x>'' = ''x&gt;''" "html_escape ''z'' = ''z''"
    by (simp_all add: html_escape_Cons html_escape_Nil esc_char_def)
  show ?thesis using 1 2 3 z e by simp
qed

section \<open>The worked example of the renderer\<close>

text \<open>
  Claim C10.  The renderer maps the text of a bullet line, a blank line and a fenced block
  holding \<open>kubectl get pods\<close> to seven parts joined by newlines: the list is opened and
  closed before the code block opens, the blank line gives the line-break marker, and the
  two fence lines are not echoed.  Without the joining newlines the output is exactly
  \<open><ul><li>step one</li></ul><br/><pre><code>kubectl get pods</code></pre>\<close>.
\<close>

theorem C10_worked_example:
  "render_simple_markdown_to_html
     (''* step one'' @ [NL, NL, BT, BT, BT, NL] @ ''kubectl get pods'' @ [NL, BT, BT, BT])
   = ''<ul>'' @ [NL] @ ''<li>step one</li>'' @ [NL] @ ''</ul>'' @ [NL] @ ''<br/>'' @ [NL]
       @ ''<pre><code>'' @ [NL] @ ''kubectl get pods'' @ [NL] @ ''</code></pre>''
   \<and> filter (\<lambda>c. c \<noteq> NL)
       (render_simple_markdown_to_html
         (''* step one'' @ [NL, NL, BT, BT, BT, NL] @ ''kubectl get pods'' @ [NL, BT, BT, BT]))
     = ''<ul><li>step one</li></ul><br/><pre><code>kubectl get pods</code></pre>''"
  by code_simp

section \<open>Properties of the output text extractor\<close>

lemma first_text_silent: "list_all obj_entry_silent cs \<Longrightarrow> first_text cs = None"
  by (induction cs) (simp_all add: obj_entry_silent_def)

lemma first_text_hit:
  "list_all obj_entry_silent cs1 \<Longrightarrow> truthy (getattr_or_none c ''text'')
   \<Longrightarrow> first_text (cs1 @ c # cs2) = Some (getattr_or_none c ''text'')"
  by (induction cs1) (simp_all add: obj_entry_silent_def)

lemma scan_items_silent_item: "obj_item_silent q \<Longrightarrow> scan_items (q # rest) = scan_items rest"
  by (auto simp: obj_item_silent_def first_text_silent split: pyval.splits)

lemma scan_items_silent: "list_all obj_item_silent qs \<Longrightarrow> scan_items (qs @ rest) = scan_items rest"
  by (induction qs) (simp_all add: scan_items_silent_item del: scan_items.simps)

lemma scan_items_hit:
  assumes "getattr_or_none m ''type'' = PStr ''message''"
    and "getattr_or_none m ''content'' = PList (cs1 @ [c] @ cs2)"
    and "list_all obj_entry_silent cs1"
    and "truthy (getattr_or_none c ''text'')"
  shows "scan_items (m # rest) = Inr (Some (getattr_or_none c ''text''))"
  using assms by (simp add: first_text_hit)

lemma dict_first_text_silent: "list_all dict_entry_silent cs \<Longrightarrow> dict_first_text cs = Inr None"
  by (induction cs) (auto simp: dict_entry_silent_def split: pyval.splits)

lemma dict_first_text_hit:
  "list_all dict_entry_silent cs1 \<Longrightarrow> truthy (dict_get ckv ''text'' PNone)
   \<Longrightarrow> dict_first_text (cs1 @ PDict ckv # cs2) = Inr (Some (dict_get ckv ''text'' PNone))"
  by (induction cs1) (auto simp: dict_entry_silent_def split: pyval.splits)

lemma dict_scan_items_silent_item:
  "dict_item_silent q \<Longrightarrow> dict_scan_items (q # rest) = dict_scan_items rest"
  by (auto simp: dict_item_silent_def dict_first_text_silent split: pyval.splits)

lemma dict_scan_items_silent:
  "list_all dict_item_silent qs \<Longrightarrow> dict_scan_items (qs @ rest) = dict_scan_items rest"
  by (induction qs) (simp_all add: dict_scan_items_silent_item del: dict_scan_items.simps)

lemma dict_scan_items_hit:
  assumes "dict_get mkv ''type'' PNone = PStr ''message''"
    and "dict_get mkv ''content'' (PList []) = PList (cs1 @ [PDict ckv] @ cs2)"
    and "list_all dict_entry_silent cs1"
    and "truthy (dict_get ckv ''text'' PNone)"
  shows "dict_scan_items (PDict mkv # rest) = Inr (Some (dict_get ckv ''text'' PNone))"
  using assms by (simp add: dict_first_text_hit)

lemma attr_stage_not_obj: "attr_stage (PDict kvs) = Inr None"
  by (simp add: attr_stage_def)


text \<open>
  Claim C8, as amended.  Let the response expose an output list \<open>pre @ [m] @ post\<close> where
  \<open>m\<close> is a message whose content list has an entry \<open>c\<close> with a non-empty text, the
  entries before \<open>c\<close> have none, and every item after \<open>m\<close> yields no text (it is no message,
  or has an empty content, or is a message none of whose entries has a non-empty text).
  Then the extractor returns the text of \<open>c\<close>, whatever the items \<open>pre\<close> are: the scan
  runs in reverse, reads the entries of a message in forward order, passes over a message
  without text, and consults no earlier item once a text is found.  This holds for an
  object with an \<open>output\<close> attribute and for a dictionary with an \<open>output\<close> key.
\<close>

theorem C8_output_scan:
  "(map_of attrs ''output'' = Some (PList (pre @ [m] @ post))
      \<and> getattr_or_none m ''type'' = PStr ''message''
      \<and> getattr_or_none m ''content'' = PList (cs1 @ [c] @ cs2)
      \<and> list_all obj_entry_silent cs1
      \<and> truthy (getattr_or_none c ''text'')
      \<and> list_all obj_item_silent post
    \<longrightarrow> extract_output_text str_of (PObj attrs td disp) = Inr (getattr_or_none c ''text''))
   \<and> (dict_get kvs ''output'' PNone = PList (pre @ [PDict mkv] @ post)
      \<and> dict_get mkv ''type'' PNone = PStr ''message''
      \<and> dict_get mkv ''content'' (PList []) = PList (cs1 @ [PDict ckv] @ cs2)
      \<and> list_all dict_entry_silent cs1
      \<and> truthy (dict_get ckv ''text'' PNone)
      \<and> list_all dict_item_silent post
    \<longrightarrow> extract_output_text str_of (PDict kvs) = Inr (dict_get ckv ''text'' PNone))"
proof (intro conjI impI)
  assume a: "map_of attrs ''output'' = Some (PList (pre @ [m] @ post))
      \<and> getattr_or_none m ''type'' = PStr ''message''
      \<and> getattr_or_none m ''content'' = PList (cs1 @ [c] @ cs2)
      \<and> list_all obj_entry_silent cs1
      \<and> truthy (getattr_or_none c ''text'')
      \<and> list_all obj_item_silent post"
  then have "scan_items (rev post @ m # rev pre) = Inr (Some (getattr_or_none c ''text''))"
    using scan_items_silent [of "rev post" "m # rev pre"] scan_items_hit [of m cs1 c cs2 "rev pre"]
    by simp
  then have "attr_stage (PObj attrs td disp) = Inr (Some (getattr_or_none c ''text''))"
    using a by (simp add: attr_stage_def py_reversed_def)
  then show "extract_output_text str_of (PObj attrs td disp) = Inr (getattr_or_none c ''text'')"
    by (simp add: extract_output_text_def)
next
  assume a: "dict_get kvs ''output'' PNone = PList (pre @ [PDict mkv] @ post)
      \<and> dict_get mkv ''type'' PNone = PStr ''message''
      \<and> dict_get mkv ''content'' (PList []) = PList (cs1 @ [PDict ckv] @ cs2)
      \<and> list_all dict_entry_silent cs1
      \<and> truthy (dict_get ckv ''text'' PNone)
      \<and> list_all dict_item_silent post"
  then have "dict_scan_items (rev post @ PDict mkv # rev pre) = Inr (Some (dict_get ckv ''text'' PNone))"
    using dict_scan_items_silent [of "rev post" "PDict mkv # rev pre"]
      dict_scan_items_hit [of mkv cs1 ckv cs2 "rev pre"]
    by simp
  then have "dict_stage (PDict kvs) = Inr (Some (dict_get ckv ''text'' PNone))"
    using a by (simp add: dict_stage_def)
  then show "extract_output_text str_of (PDict kvs) = Inr (dict_get ckv ''text'' PNone)"
    by (simp add: extract_output_text_def attr_stage_not_obj)
qed

theorem C8_output_scan_witness:
  "extract_output_text py_str
     (PObj [(''output'', PList
        [PObj [(''type'', PStr ''message''),
               (''content'', PList [PObj [(''text'', PStr ''old'')] Absent ''c0''])] Absent ''m0'',
         PObj [(''type'', PStr ''message''),
               (''content'', PList [PObj [(''text'', PStr [])] Absent ''c1'',
                                    PObj [(''text'', PStr ''new'')] Absent ''c2'',
                                    PObj [(''text'', PStr ''more'')] Absent ''c3''])] Absent ''m1'',
         PObj [(''type'', PStr ''function_call'')] Absent ''t'',
         PObj [(''type'', PStr ''message''),
               (''content'', PList [PObj [(''text'', PStr [])] Absent ''c4''])] Absent ''m2''])]
        Absent ''r'')
   = Inr (PStr ''new'')
   \<and> extract_output_text py_str
     (PDict [(''output'', PList
        [PDict [(''type'', PStr ''message''),
                (''content'', PList [PDict [(''text'', PStr ''old'')]])],
         PDict [(''type'', PStr ''message''),
                (''content'', PList [PDict [(''text'', PStr [])], PDict [(''text'', PStr ''new'')]])],
         PDict [(''type'', PStr ''function_call'')]])])
   = Inr (PStr ''new'')"
proof -
  let ?m0 = "PObj [(''type'', PStr ''message''),
               (''content'', PList [PObj [(''text'', PStr ''old'')] Absent ''c0''])] Absent ''m0''"
  let ?c1 = "PObj [(''text'', PStr [])] Absent ''c1''"
  let ?c2 = "PObj [(''text'', PStr ''new'')] Absent ''c2''"
  let ?c3 = "PObj [(''text'', PStr ''more'')] Absent ''c3''"
  let ?m1 = "PObj [(''type'', PStr ''message''), (''content'', PList [?c1, ?c2, ?c3])] Absent ''m1''"
  let ?t = "PObj [(''type'', PStr ''function_call'')] Absent ''t''"
  let ?m2 = "PObj [(''type'', PStr ''message''),
               (''content'', PList [PObj [(''text'', PStr [])] Absent ''c4''])] Absent ''m2''"
  have 1: "extract_output_text py_str (PObj [(''output'', PList [?m0, ?m1, ?t, ?m2])] Absent ''r'')
           = Inr (getattr_or_none ?c2 ''text'')"
    using C8_output_scan [THEN conjunct1, rule_format,
          where attrs = "[(''output'', PList [?m0, ?m1, ?t, ?m2])]"
            and pre = "[?m0]" and m = ?m1 and post = "[?t, ?m2]"
            and ?cs1.0 = "[?c1]" and c = ?c2 and ?cs2.0 = "[?c3]"
            and str_of = py_str and td = Absent and disp = "''r''"]
    by (simp add: obj_entry_silent_def obj_item_silent_def)
  let ?d0 = "PDict [(''type'', PStr ''message''), (''content'', PList [PDict [(''text'', PStr ''old'')]])]"
  let ?e1 = "PDict [(''text'', PStr [])]"
  let ?d1 = "[(''type'', PStr ''message''),
              (''content'', PList [?e1, PDict [(''text'', PStr ''new'')]])]"
  let ?d2 = "PDict [(''type'', PStr ''function_call'')]"
  have 2: "extract_output_text py_str (PDict [(''output'', PList [?d0, PDict ?d1, ?d2])])
           = Inr (dict_get [(''text'', PStr ''new'')] ''text'' PNone)"
    using C8_output_scan [THEN conjunct2, rule_format,
          where kvs = "[(''output'', PList [?d0, PDict ?d1, ?d2])]"
            and pre = "[?d0]" and mkv = ?d1 and post = "[?d2]"
            and ?cs1.0 = "[?e1]" and ckv = "[(''text'', PStr ''new'')]" and ?cs2.0 = "[]"
            and str_of = py_str]
    by (simp add: dict_entry_silent_def dict_item_silent_def dict_get_def)
  show ?thesis using 1 2 by (simp add: dict_get_def)
qed

text \<open>
  Claim C8 as stated fails: the first message in reverse order with a non-empty content
  list may carry no non-empty text, and then the scan goes on to the items before it.
  Here the last item is such a message, and the result is the text of the item before it,
  whatever that text is.
\<close>

theorem C8_output_scan_counterexample:
  "extract_output_text py_str
     (PObj [(''output'', PList
        [PObj [(''type'', PStr ''message''),
               (''content'', PList [PObj [(''text'', PStr ''old'')] Absent ''c0''])] Absent ''m0'',
         PObj [(''type'', PStr ''message''),
               (''content'', PList [PObj [(''text'', PStr [])] Absent ''c1''])] Absent ''m1''])]
        Absent ''r'')
   = Inr (PStr ''old'')
   \<and> extract_output_text py_str
     (PObj [(''output'', PList
        [PObj [(''type'', PStr ''message''),
               (''content'', PList [PObj [(''text'', PStr ''older'')] Absent ''c0''])] Absent ''m0'',
         PObj [(''type'', PStr ''message''),
               (''content'', PList [PObj [(''text'', PStr [])] Absent ''c1''])] Absent ''m1''])]
        Absent ''r'')
   = Inr (PStr ''older'')"
  by (simp add: extract_output_text_def attr_stage_def py_reversed_def)

text \<open>
  Claim C1 fails on the code.  The dictionary path of the extractor stands outside the
  \<open>try\<close>: a dictionary whose \<open>output\<close> list has an item that is no dictionary raises
  \<open>AttributeError\<close>, and a message item whose \<open>content\<close> is \<open>None\<close> raises \<open>TypeError\<close>.
  The attribute path returns a truthy \<open>text\<close> as it is, which need not be a string.
\<close>

theorem C1_extractor_raises:
  "extract_output_text py_str (PDict [(''output'', PList [PStr ''x''])]) = Inl AttributeError
   \<and> extract_output_text py_str
       (PDict [(''output'', PList [PDict [(''type'', PStr ''message''), (''content'', PNone)]])])
     = Inl TypeError
   \<and> extract_output_text py_str
       (PObj [(''output'', PList
          [PObj [(''type'', PStr ''message''),
                 (''content'', PList [PObj [(''text'', PInt 5)] Absent ''c''])] Absent ''m''])]
          Absent ''r'')
     = Inr (PInt 5)"
  by (simp add: extract_output_text_def attr_stage_def dict_stage_def py_reversed_def dict_get_def)

section \<open>Properties of the turn-result variant\<close>






section \<open>Properties of the incident question\<close>







section \<open>Properties of the structured-result extractor\<close>

subsection \<open>Occurrences of a pattern\<close>

lemma startswith_iff: "startswith p s \<longleftrightarrow> (\<exists>b. s = p @ b)"
proof
  assume "startswith p s"
  then have "s = p @ drop (length p) s"
    by (metis append_take_drop_id startswith_def)
  then show "\<exists>b. s = p @ b" ..
next
  assume "\<exists>b. s = p @ b"
  then show "startswith p s" by (auto simp: startswith_def)
qed

lemma startswith_Nil [simp]: "startswith [] s"
  by (simp add: startswith_def)

lemma startswith_Cons_Cons: "startswith (x # p) (c # cs) \<longleftrightarrow> x = c \<and> startswith p cs"
  by (auto simp: startswith_def)

lemma startswith_Cons_Nil [simp]: "\<not> startswith (x # p) []"
  by (simp add: startswith_def)

lemma find_from_Some_iff: "(find_from p i s \<noteq> None) \<longleftrightarrow> (\<exists>a b. s = a @ p @ b)"
proof (induction s arbitrary: i)
  case Nil
  then show ?case by auto
next
  case (Cons c cs)
  show ?case
  proof (cases "startswith p (c # cs)")
    case True
    then obtain b where "c # cs = [] @ p @ b" by (auto simp: startswith_iff)
    then have "\<exists>a b. c # cs = a @ p @ b" by blast
    then show ?thesis using True by simp
  next
    case False
    have "(\<exists>a b. c # cs = a @ p @ b) \<longleftrightarrow> (\<exists>a b. cs = a @ p @ b)"
    proof
      assume "\<exists>a b. c # cs = a @ p @ b"
      then obtain a b where ab: "c # cs = a @ p @ b" by blast
      have "a \<noteq> []" using ab False by (auto simp: startswith_iff)
      then obtain a' where "a = c # a'" using ab by (cases a) auto
      then have "cs = a' @ p @ b" using ab by simp
      then show "\<exists>a b. cs = a @ p @ b" by blast
    next
      assume "\<exists>a b. cs = a @ p @ b"
      then obtain a b where "cs = a @ p @ b" by blast
      then have "c # cs = (c # a) @ p @ b" by simp
      then show "\<exists>a b. c # cs = a @ p @ b" by blast
    qed
    then show ?thesis using False Cons.IH [of "Suc i"] by simp
  qed
qed

lemma contains_iff: "contains p s \<longleftrightarrow> (\<exists>a b. s = a @ p @ b)"
  using find_from_Some_iff [of p 0 s] by (simp add: contains_def str_find_def)

lemma contains_Cons: "contains p (c # cs) \<longleftrightarrow> startswith p (c # cs) \<or> contains p cs"
proof -
  have "find_from p (Suc 0) cs \<noteq> None \<longleftrightarrow> find_from p 0 cs \<noteq> None"
    using find_from_Some_iff [of p "Suc 0" cs] find_from_Some_iff [of p 0 cs] by simp
  then show ?thesis by (simp add: contains_def str_find_def)
qed


lemma contains_append_left: "contains p s \<Longrightarrow> contains p (a @ s)"
proof -
  assume "contains p s"
  then obtain x y where "s = x @ p @ y" by (auto simp: contains_iff)
  then have "a @ s = (a @ x) @ p @ y" by simp
  then show ?thesis unfolding contains_iff by blast
qed

lemma contains_drop: "contains p (drop n s) \<Longrightarrow> contains p s"
  using contains_append_left [of p "drop n s" "take n s"] by simp




subsection \<open>The working copy has no fence\<close>

lemma strip_fences_Nil: "strip_fences [] = []"
  by (simp add: strip_fences.simps)

lemma strip_fences_fence:
  "startswith [BT, BT, BT] (c # cs) \<Longrightarrow>
   strip_fences (c # cs) = strip_fences (dropWhile is_tag_char (dropWhile (\<lambda>x. x = BT) (c # cs)))"
  by (subst strip_fences.simps) simp

lemma strip_fences_keep:
  "\<not> startswith [BT, BT, BT] (c # cs) \<Longrightarrow> strip_fences (c # cs) = c # strip_fences cs"
  by (subst strip_fences.simps) simp

lemma strip_fences_head: "\<not> startswith [BT, BT, BT] (strip_fences s)"
proof (induction s rule: strip_fences.induct)
  case (1 s)
  show ?case
  proof (cases s)
    case Nil
    then show ?thesis by (simp add: strip_fences_Nil)
  next
    case (Cons c cs)
    show ?thesis
    proof (cases "startswith [BT, BT, BT] s")
      case True
      then show ?thesis using "1.IH"(1) [OF Cons True] Cons by (simp add: strip_fences_fence)
    next
      case False
      have s: "strip_fences s = c # strip_fences cs" using False Cons by (simp add: strip_fences_keep)
      show ?thesis
      proof
        assume h: "startswith [BT, BT, BT] (strip_fences s)"
        then have c: "c = BT" and r: "startswith [BT, BT] (strip_fences cs)"
          using s by (auto simp: startswith_Cons_Cons)
        from r obtain d ds where cs: "cs = d # ds"
          by (cases cs) (simp_all add: strip_fences_Nil)
        have nf: "\<not> startswith [BT, BT, BT] cs"
          using False Cons c cs by (auto simp: startswith_iff)
        then have 2: "strip_fences cs = d # strip_fences ds" using cs by (simp add: strip_fences_keep)
        with r have d: "d = BT" and r2: "startswith [BT] (strip_fences ds)"
          by (auto simp: startswith_Cons_Cons)
        from r2 obtain e es where ds: "ds = e # es"
          by (cases ds) (simp_all add: strip_fences_Nil)
        have "e \<noteq> BT" using False Cons c cs d ds by (auto simp: startswith_iff)
        then have "\<not> startswith [BT, BT, BT] ds" using ds by (simp add: startswith_Cons_Cons)
        then have "strip_fences ds = e # strip_fences es" using ds by (simp add: strip_fences_keep)
        with r2 have "e = BT" by (auto simp: startswith_Cons_Cons)
        with \<open>e \<noteq> BT\<close> show False by simp
      qed
    qed
  qed
qed

lemma has_fence_Cons: "has_fence (c # s) \<longleftrightarrow> startswith [BT, BT, BT] (c # s) \<or> has_fence s"
proof
  assume "has_fence (c # s)"
  then obtain a b where ab: "c # s = a @ [BT, BT, BT] @ b" by (auto simp: has_fence_def)
  show "startswith [BT, BT, BT] (c # s) \<or> has_fence s"
  proof (cases a)
    case Nil
    then show ?thesis using ab by (auto simp: startswith_iff)
  next
    case (Cons x a')
    then have "s = a' @ [BT, BT, BT] @ b" using ab by simp
    then show ?thesis unfolding has_fence_def by blast
  qed
next
  assume "startswith [BT, BT, BT] (c # s) \<or> has_fence s"
  then show "has_fence (c # s)"
  proof
    assume "startswith [BT, BT, BT] (c # s)"
    then obtain b where "c # s = [] @ [BT, BT, BT] @ b" by (auto simp: startswith_iff)
    then show ?thesis unfolding has_fence_def by blast
  next
    assume "has_fence s"
    then obtain a b where "s = a @ [BT, BT, BT] @ b" by (auto simp: has_fence_def)
    then have "c # s = (c # a) @ [BT, BT, BT] @ b" by simp
    then show ?thesis unfolding has_fence_def by blast
  qed
qed

lemma has_fence_Nil: "\<not> has_fence []"
  by (simp add: has_fence_def)

lemma strip_fences_no_fence: "\<not> has_fence (strip_fences s)"
proof (induction s rule: strip_fences.induct)
  case (1 s)
  show ?case
  proof (cases s)
    case Nil
    then show ?thesis by (simp add: strip_fences_Nil has_fence_Nil)
  next
    case (Cons c cs)
    show ?thesis
    proof (cases "startswith [BT, BT, BT] s")
      case True
      then show ?thesis using "1.IH"(1) [OF Cons True] Cons by (simp add: strip_fences_fence)
    next
      case False
      have s: "strip_fences s = c # strip_fences cs" using False Cons by (simp add: strip_fences_keep)
      have "\<not> startswith [BT, BT, BT] (c # strip_fences cs)"
        using strip_fences_head [of s] s by simp
      moreover have "\<not> has_fence (strip_fences cs)" using "1.IH"(2) [OF Cons False] .
      ultimately show ?thesis using s by (simp add: has_fence_Cons)
    qed
  qed
qed

lemma replace_str_Nil: "replace_str old new [] = []"
  by (simp add: replace_str.simps)

lemma replace_str_hit:
  "old \<noteq> [] \<Longrightarrow> startswith old (c # cs) \<Longrightarrow>
   replace_str old new (c # cs) = new @ replace_str old new (drop (length old) (c # cs))"
  by (subst replace_str.simps) simp

lemma replace_str_miss:
  "\<not> startswith old (c # cs) \<Longrightarrow> replace_str old new (c # cs) = c # replace_str old new cs"
  by (subst replace_str.simps) simp

lemma replace_str_head:
  assumes "old \<noteq> []" and "x \<notin> set new" and "new \<noteq> []"
    and "replace_str old new t = x # r"
  shows "\<exists>t'. t = x # t' \<and> r = replace_str old new t'"
proof (cases t)
  case Nil
  then show ?thesis using assms by (simp add: replace_str_Nil)
next
  case (Cons c cs)
  show ?thesis
  proof (cases "startswith old (c # cs)")
    case True
    then have "replace_str old new t = new @ replace_str old new (drop (length old) t)"
      using Cons assms(1) by (simp add: replace_str_hit)
    then have "hd new = x" using assms(3,4) by (cases new) auto
    then show ?thesis using assms(2,3) by (cases new) auto
  next
    case False
    then show ?thesis using Cons assms(4) by (simp add: replace_str_miss)
  qed
qed

lemma replace_str_fence_head:
  assumes "old \<noteq> []"
    and "startswith [BT, BT, BT] (replace_str old [NL] t)"
  shows "startswith [BT, BT, BT] t"
proof -
  from assms(2) obtain r where 1: "replace_str old [NL] t = BT # BT # BT # r"
    by (auto simp: startswith_iff)
  from replace_str_head [OF assms(1) _ _ 1] obtain t1
    where t1: "t = BT # t1" "BT # BT # r = replace_str old [NL] t1" by auto
  from replace_str_head [OF assms(1) _ _ t1(2) [symmetric]] obtain t2
    where t2: "t1 = BT # t2" "BT # r = replace_str old [NL] t2" by auto
  from replace_str_head [OF assms(1) _ _ t2(2) [symmetric]] obtain t3
    where t3: "t2 = BT # t3" by auto
  show ?thesis using t1 t2 t3 by (simp add: startswith_def)
qed

lemma has_fence_drop: "has_fence (drop n s) \<Longrightarrow> has_fence s"
proof -
  assume "has_fence (drop n s)"
  then obtain a b where "drop n s = a @ [BT, BT, BT] @ b" by (auto simp: has_fence_def)
  then have "s = (take n s @ a) @ [BT, BT, BT] @ b"
    by (metis append.assoc append_take_drop_id)
  then show ?thesis unfolding has_fence_def by blast
qed

lemma replace_str_no_fence:
  "old \<noteq> [] \<Longrightarrow> has_fence (replace_str old [NL] s) \<Longrightarrow> has_fence s"
proof (induction old "[NL]" s rule: replace_str.induct)
  case (1 old s)
  show ?case
  proof (cases s)
    case Nil
    then show ?thesis using "1.prems" by (simp add: replace_str_Nil)
  next
    case (Cons c cs)
    show ?thesis
    proof (cases "old \<noteq> [] \<and> startswith old s")
      case True
      then have "replace_str old [NL] s = NL # replace_str old [NL] (drop (length old) s)"
        using Cons by (simp add: replace_str_hit)
      then have "has_fence (replace_str old [NL] (drop (length old) s))"
        using "1.prems"(2) by (simp add: has_fence_Cons startswith_Cons_Cons)
      then have "has_fence (drop (length old) s)"
        using "1.hyps"(1) [OF Cons True] "1.prems"(1) by simp
      then show ?thesis by (rule has_fence_drop)
    next
      case False
      then have r: "replace_str old [NL] s = c # replace_str old [NL] cs"
        using Cons "1.prems"(1) by (simp add: replace_str_miss)
      then have "startswith [BT, BT, BT] (replace_str old [NL] s) \<or> has_fence (replace_str old [NL] cs)"
        using "1.prems"(2) by (simp add: has_fence_Cons)
      then show ?thesis
      proof
        assume "startswith [BT, BT, BT] (replace_str old [NL] s)"
        then have "startswith [BT, BT, BT] s"
          using replace_str_fence_head "1.prems"(1) by blast
        then show ?thesis using Cons by (simp add: has_fence_Cons)
      next
        assume "has_fence (replace_str old [NL] cs)"
        then have "has_fence cs" using "1.hyps"(2) [OF Cons False] "1.prems"(1) by simp
        then show ?thesis using Cons by (simp add: has_fence_Cons)
      qed
    qed
  qed
qed

lemma normalise_no_fence: "\<not> has_fence (normalise raw)"
proof
  assume "has_fence (normalise raw)"
  then have "has_fence (replace_str ''<br/>'' [NL] (strip_fences raw))"
    unfolding normalise_def using replace_str_no_fence [of "''<br>''"] by simp
  then have "has_fence (strip_fences raw)"
    using replace_str_no_fence [of "''<br/>''"] by simp
  then show False using strip_fences_no_fence by simp
qed

lemma fenced_search_fence: "fenced_search s = Some g \<Longrightarrow> has_fence s"
proof (induction s)
  case Nil
  then show ?case by simp
next
  case (Cons c cs)
  show ?case
  proof (cases "startswith ([BT, BT, BT] @ ''json'') (c # cs)")
    case True
    then have "startswith [BT, BT, BT] (c # cs)" by (auto simp: startswith_iff)
    then show ?thesis by (simp add: has_fence_Cons)
  next
    case False
    then have "fenced_search cs = Some g" using Cons.prems by simp
    then show ?thesis using Cons.IH by (simp add: has_fence_Cons)
  qed
qed

lemma fenced_search_normalise: "fenced_search (normalise raw) = None"
proof (cases "fenced_search (normalise raw)")
  case None
  then show ?thesis .
next
  case (Some g)
  then show ?thesis using fenced_search_fence normalise_no_fence by blast
qed

lemma fenced_stage_normalise: "fenced_stage loads (normalise raw) j = j"
  by (simp add: fenced_stage_def fenced_search_normalise)

subsection \<open>Occurrences in the working copy\<close>

lemma not_tag_char_BT: "\<not> is_tag_char BT"
  by (simp add: is_tag_char_def is_word_char_def)

lemma strip_fences_tag_head:
  "strip_fences t = w # r \<Longrightarrow> is_tag_char w \<Longrightarrow> \<exists>cs. t = w # cs \<and> r = strip_fences cs"
proof (induction t rule: strip_fences.induct)
  case (1 s)
  show ?case
  proof (cases s)
    case Nil
    then show ?thesis using "1.prems" by (simp add: strip_fences_Nil)
  next
    case (Cons c cs)
    show ?thesis
    proof (cases "startswith [BT, BT, BT] s")
      case True
      let ?t = "dropWhile is_tag_char (dropWhile (\<lambda>x. x = BT) s)"
      have "strip_fences ?t = w # r"
        using True Cons "1.prems"(1) by (simp add: strip_fences_fence)
      then obtain cs' where t: "?t = w # cs'"
        using "1.IH"(1) [OF Cons True] "1.prems"(2) by blast
      then have "\<not> is_tag_char (hd ?t)"
        using hd_dropWhile [of is_tag_char "dropWhile (\<lambda>x. x = BT) s"] by simp
      then show ?thesis using t "1.prems"(2) by simp
    next
      case False
      then show ?thesis using Cons "1.prems"(1) by (simp add: strip_fences_keep)
    qed
  qed
qed

lemma strip_fences_tag_prefix:
  "list_all is_tag_char w \<Longrightarrow> startswith w (strip_fences t) \<Longrightarrow> startswith w t"
proof (induction w arbitrary: t)
  case Nil
  then show ?case by simp
next
  case (Cons x w)
  from Cons.prems(2) obtain r where r: "strip_fences t = x # r" and w: "startswith w r"
    by (cases "strip_fences t") (auto simp: startswith_Cons_Cons)
  from strip_fences_tag_head [OF r] Cons.prems(1) obtain cs
    where cs: "t = x # cs" "r = strip_fences cs" by auto
  then have "startswith w cs" using Cons.IH Cons.prems(1) w by simp
  then show ?case using cs by (simp add: startswith_Cons_Cons)
qed

lemma contains_dropWhile: "contains p (dropWhile P s) \<Longrightarrow> contains p s"
  using contains_drop [of p "length (takeWhile P s)" s] by (simp add: dropWhile_eq_drop)

lemma strip_fences_contains:
  "k \<noteq> [] \<Longrightarrow> list_all is_tag_char k \<Longrightarrow> contains k (strip_fences s) \<Longrightarrow> contains k s"
proof (induction s rule: strip_fences.induct)
  case (1 s)
  show ?case
  proof (cases s)
    case Nil
    then show ?thesis using "1.prems" by (simp add: strip_fences_Nil)
  next
    case (Cons c cs)
    show ?thesis
    proof (cases "startswith [BT, BT, BT] s")
      case True
      let ?t = "dropWhile is_tag_char (dropWhile (\<lambda>x. x = BT) s)"
      have "contains k (strip_fences ?t)"
        using True Cons "1.prems"(3) by (simp add: strip_fences_fence)
      then have "contains k ?t" using "1.IH"(1) [OF Cons True] "1.prems"(1,2) by simp
      then show ?thesis using contains_dropWhile by blast
    next
      case False
      then have s: "strip_fences s = c # strip_fences cs" using Cons by (simp add: strip_fences_keep)
      then have "startswith k (strip_fences s) \<or> contains k (strip_fences cs)"
        using "1.prems"(3) by (simp add: contains_Cons)
      then show ?thesis
      proof
        assume "startswith k (strip_fences s)"
        then have "startswith k s" using strip_fences_tag_prefix "1.prems"(2) by blast
        then show ?thesis using Cons by (simp add: contains_Cons)
      next
        assume "contains k (strip_fences cs)"
        then have "contains k cs" using "1.IH"(2) [OF Cons False] "1.prems"(1,2) by simp
        then show ?thesis using Cons by (simp add: contains_Cons)
      qed
    qed
  qed
qed

lemma replace_str_prefix:
  "old \<noteq> [] \<Longrightarrow> NL \<notin> set w \<Longrightarrow> startswith w (replace_str old [NL] t) \<Longrightarrow> startswith w t"
proof (induction w arbitrary: t)
  case Nil
  then show ?case by simp
next
  case (Cons x w)
  from Cons.prems(3) obtain r where r: "replace_str old [NL] t = x # r" and w: "startswith w r"
    by (cases "replace_str old [NL] t") (auto simp: startswith_Cons_Cons)
  have "x \<notin> set [NL]" using Cons.prems(2) by auto
  from replace_str_head [OF Cons.prems(1) this _ r] obtain t'
    where t': "t = x # t'" "r = replace_str old [NL] t'" by auto
  then have "startswith w t'" using Cons.IH Cons.prems(1,2) w by simp
  then show ?case using t' by (simp add: startswith_Cons_Cons)
qed

lemma replace_str_contains:
  "old \<noteq> [] \<Longrightarrow> k \<noteq> [] \<Longrightarrow> NL \<notin> set k \<Longrightarrow> contains k (replace_str old [NL] s)
   \<Longrightarrow> contains k s"
proof (induction old "[NL]" s rule: replace_str.induct)
  case (1 old s)
  show ?case
  proof (cases s)
    case Nil
    then show ?thesis using "1.prems" by (simp add: replace_str_Nil)
  next
    case (Cons c cs)
    show ?thesis
    proof (cases "old \<noteq> [] \<and> startswith old s")
      case True
      then have "replace_str old [NL] s = NL # replace_str old [NL] (drop (length old) s)"
        using Cons by (simp add: replace_str_hit)
      moreover have "\<not> startswith k (NL # replace_str old [NL] (drop (length old) s))"
        using "1.prems"(2,3) by (cases k) (auto simp: startswith_Cons_Cons)
      ultimately have "contains k (replace_str old [NL] (drop (length old) s))"
        using "1.prems"(4) by (simp add: contains_Cons)
      then have "contains k (drop (length old) s)"
        using "1.hyps"(1) [OF Cons True] "1.prems"(1,2,3) by simp
      then show ?thesis by (rule contains_drop)
    next
      case False
      then have r: "replace_str old [NL] s = c # replace_str old [NL] cs"
        using Cons "1.prems"(1) by (simp add: replace_str_miss)
      then have "startswith k (replace_str old [NL] s) \<or> contains k (replace_str old [NL] cs)"
        using "1.prems"(4) by (simp add: contains_Cons)
      then show ?thesis
      proof
        assume "startswith k (replace_str old [NL] s)"
        then have "startswith k s" using replace_str_prefix "1.prems"(1,3) by blast
        then show ?thesis using Cons by (simp add: contains_Cons)
      next
        assume "contains k (replace_str old [NL] cs)"
        then have "contains k cs" using "1.hyps"(2) [OF Cons False] "1.prems"(1,2,3) by simp
        then show ?thesis using Cons by (simp add: contains_Cons)
      qed
    qed
  qed
qed

lemma anchor_key_chars: "list_all is_tag_char ANCHOR_KEY" "NL \<notin> set ANCHOR_KEY" "ANCHOR_KEY \<noteq> []"
  by (simp_all add: ANCHOR_KEY_def is_tag_char_def is_word_char_def)

lemma normalise_contains_anchor:
  "contains ANCHOR_KEY (normalise raw) \<Longrightarrow> contains ANCHOR_KEY raw"
proof -
  assume "contains ANCHOR_KEY (normalise raw)"
  then have "contains ANCHOR_KEY (replace_str ''<br/>'' [NL] (strip_fences raw))"
    unfolding normalise_def using replace_str_contains [of "''<br>''" ANCHOR_KEY] anchor_key_chars
    by simp
  then have "contains ANCHOR_KEY (strip_fences raw)"
    using replace_str_contains [of "''<br/>''" ANCHOR_KEY] anchor_key_chars by simp
  then show ?thesis using strip_fences_contains anchor_key_chars by blast
qed

lemma anchor_candidate_absent:
  "\<not> contains ANCHOR_KEY s \<Longrightarrow> anchor_candidate s = strip s"
  by (simp add: anchor_candidate_def contains_def)

text \<open>
  Claim C3, as amended.  For every input text in which the anchor key does not occur, the
  key does not occur in the working copy either, and the candidate of the third strategy is
  the whole working copy, trimmed.  So when the marker strategy yields nothing (the fenced
  strategy never yields anything), the findings are the value decoded from the trimmed
  working copy if that starts with an opening brace, ends with a closing brace and is
  decoded, and null otherwise; when the marker strategy yields a value, that value is the
  result.
\<close>

theorem C3_anchor_key_absent:
  "\<not> contains ANCHOR_KEY raw \<Longrightarrow>
   anchor_candidate (normalise raw) = strip (normalise raw)
   \<and> snd (split_rag_output loads raw) =
       (if marker_stage loads (normalise raw) \<noteq> PNone
        then marker_stage loads (normalise raw)
        else if startswith ''{'' (strip (normalise raw)) \<and> endswith ''}'' (strip (normalise raw))
        then (case loads (strip (normalise raw)) of Some v \<Rightarrow> v | None \<Rightarrow> PNone)
        else PNone)"
proof -
  assume "\<not> contains ANCHOR_KEY raw"
  then have "\<not> contains ANCHOR_KEY (normalise raw)"
    using normalise_contains_anchor by blast
  then have c: "anchor_candidate (normalise raw) = strip (normalise raw)"
    by (rule anchor_candidate_absent)
  show ?thesis
    unfolding split_rag_output_def Let_def fenced_stage_normalise anchor_stage_def c
    by (auto split: option.splits)
qed

theorem C3_anchor_key_absent_witness:
  "\<not> contains ANCHOR_KEY ''Pods are pending; see the {config} map.''
   \<and> anchor_candidate (normalise ''Pods are pending; see the {config} map.'')
       = ''Pods are pending; see the {config} map.''
   \<and> snd (split_rag_output json_loads ''Pods are pending; see the {config} map.'') = PNone"
proof -
  let ?raw = "''Pods are pending; see the {config} map.''"
  have h: "\<not> contains ANCHOR_KEY ?raw" by code_simp
  have m: "marker_stage json_loads (normalise ?raw) = PNone" by code_simp
  have s: "strip (normalise ?raw) = ?raw" by code_simp
  have b: "\<not> startswith ''{'' ?raw" by code_simp
  show ?thesis using C3_anchor_key_absent [OF h, of json_loads] h m s b by simp
qed

text \<open>
  Claim C3 as stated fails: with no anchor key the third strategy still reads the whole
  text.  A text that is one JSON object, with no marker and no anchor key, gives that
  object as findings, not null.
\<close>

theorem C3_anchor_key_absent_counterexample:
  "\<not> contains ANCHOR_KEY
       (''{'' @ [DQ] @ ''probable_cause'' @ [DQ] @ '':'' @ [DQ] @ ''disk full'' @ [DQ] @ ''}'')
   \<and> marker_stage json_loads
       (normalise (''{'' @ [DQ] @ ''probable_cause'' @ [DQ] @ '':'' @ [DQ] @ ''disk full'' @ [DQ] @ ''}''))
     = PNone
   \<and> split_rag_output json_loads
       (''{'' @ [DQ] @ ''probable_cause'' @ [DQ] @ '':'' @ [DQ] @ ''disk full'' @ [DQ] @ ''}'')
     = (''{'' @ [DQ] @ ''probable_cause'' @ [DQ] @ '':'' @ [DQ] @ ''disk full'' @ [DQ] @ ''}'',
        PDict [(''probable_cause'', PStr ''disk full'')])"
  by code_simp

subsection \<open>When no strategy succeeds\<close>

lemma find_from_first_occurrence:
  "p \<noteq> [] \<Longrightarrow> \<not> contains p (a @ butlast p) \<Longrightarrow> find_from p i (a @ p @ b) = Some (i + length a)"
proof (induction a arbitrary: i)
  case Nil
  then show ?case by (cases p) (simp_all add: startswith_def)
next
  case (Cons c a)
  have nc: "\<not> startswith p ((c # a) @ butlast p)" and na: "\<not> contains p (a @ butlast p)"
    using Cons.prems(2) by (simp_all add: contains_Cons)
  have "\<not> startswith p ((c # a) @ p @ b)"
  proof
    assume "startswith p ((c # a) @ p @ b)"
    then have "take (length p) ((c # a) @ p @ b) = p" by (simp add: startswith_def)
    moreover have "(c # a) @ p @ b = ((c # a) @ butlast p) @ [last p] @ b"
      using Cons.prems(1) by simp
    moreover have "length p \<le> length ((c # a) @ butlast p)" by simp
    ultimately have "take (length p) ((c # a) @ butlast p) = p"
      by (metis append_eq_conv_conj take_append take_all_iff diff_is_0_eq' take0 append_Nil2)
    then show False using nc by (simp add: startswith_def)
  qed
  then show ?case using Cons.IH [OF Cons.prems(1) na] by simp
qed

lemma str_find_first_occurrence:
  "p \<noteq> [] \<Longrightarrow> \<not> contains p (a @ butlast p) \<Longrightarrow> str_find p (a @ p @ b) = Some (length a)"
  by (simp add: str_find_def find_from_first_occurrence)

lemma explanation_of_cases:
  "(marker_search (normalise raw) = None \<longrightarrow> explanation_of raw = raw)
   \<and> (\<not> contains JSON_START raw \<longrightarrow> explanation_of raw = raw)
   \<and> (\<forall>pre rest. marker_search (normalise raw) \<noteq> None \<and> raw = pre @ JSON_START @ rest
          \<and> \<not> contains JSON_START (pre @ butlast JSON_START)
        \<longrightarrow> explanation_of raw = strip pre)"
proof (intro conjI impI allI)
  assume "marker_search (normalise raw) = None"
  then show "explanation_of raw = raw" by (simp add: explanation_of_def)
next
  assume "\<not> contains JSON_START raw"
  then show "explanation_of raw = raw"
    by (simp add: explanation_of_def contains_def split: option.splits)
next
  fix pre rest
  assume a: "marker_search (normalise raw) \<noteq> None \<and> raw = pre @ JSON_START @ rest
          \<and> \<not> contains JSON_START (pre @ butlast JSON_START)"
  have "JSON_START \<noteq> []" by (simp add: JSON_START_def)
  then have "str_find JSON_START raw = Some (length pre)"
    using a str_find_first_occurrence by blast
  then show "explanation_of raw = strip pre"
    using a by (auto simp: explanation_of_def)
qed

text \<open>
  Claim C7, as amended.  For every input text on which all three strategies fail, the
  findings are null, and the explanation is the full original text unchanged, except when
  the whole marker pattern (start marker, a span from an opening to a closing brace, end
  marker) matched the working copy and the start marker occurs in the original text: then
  the explanation is the text before the first start marker of the original, trimmed.  A
  start marker that is followed by no such span and end marker leaves the full text.
\<close>

theorem C7_all_strategies_fail:
  "marker_stage loads (normalise raw) = PNone
   \<and> fenced_stage loads (normalise raw) PNone = PNone
   \<and> anchor_stage loads (normalise raw) PNone = PNone
   \<longrightarrow> snd (split_rag_output loads raw) = PNone
       \<and> (marker_search (normalise raw) = None \<longrightarrow> fst (split_rag_output loads raw) = raw)
       \<and> (\<not> contains JSON_START raw \<longrightarrow> fst (split_rag_output loads raw) = raw)
       \<and> (\<forall>pre rest. marker_search (normalise raw) \<noteq> None \<and> raw = pre @ JSON_START @ rest
              \<and> \<not> contains JSON_START (pre @ butlast JSON_START)
            \<longrightarrow> fst (split_rag_output loads raw) = strip pre)"
proof
  assume a: "marker_stage loads (normalise raw) = PNone
   \<and> fenced_stage loads (normalise raw) PNone = PNone
   \<and> anchor_stage loads (normalise raw) PNone = PNone"
  have f: "fst (split_rag_output loads raw) = explanation_of raw"
    by (simp add: split_rag_output_def Let_def)
  have "snd (split_rag_output loads raw) = PNone"
    using a by (simp add: split_rag_output_def Let_def)
  then show "snd (split_rag_output loads raw) = PNone
       \<and> (marker_search (normalise raw) = None \<longrightarrow> fst (split_rag_output loads raw) = raw)
       \<and> (\<not> contains JSON_START raw \<longrightarrow> fst (split_rag_output loads raw) = raw)
       \<and> (\<forall>pre rest. marker_search (normalise raw) \<noteq> None \<and> raw = pre @ JSON_START @ rest
              \<and> \<not> contains JSON_START (pre @ butlast JSON_START)
            \<longrightarrow> fst (split_rag_output loads raw) = strip pre)"
    unfolding f using explanation_of_cases [of raw] by blast
qed

theorem C7_all_strategies_fail_witness:
  "split_rag_output json_loads ''intro ### JSON_START {x} ### JSON_END'' = (''intro'', PNone)
   \<and> split_rag_output json_loads ''no structured part'' = (''no structured part'', PNone)"
proof -
  let ?raw = "''intro ### JSON_START {x} ### JSON_END''"
  have h: "marker_stage json_loads (normalise ?raw) = PNone
   \<and> fenced_stage json_loads (normalise ?raw) PNone = PNone
   \<and> anchor_stage json_loads (normalise ?raw) PNone = PNone" by code_simp
  have m: "marker_search (normalise ?raw) \<noteq> None" by code_simp
  have d: "?raw = ''intro '' @ JSON_START @ '' {x} ### JSON_END''" by (simp add: JSON_START_def)
  have n: "\<not> contains JSON_START (''intro '' @ butlast JSON_START)" by code_simp
  have s: "strip ''intro '' = ''intro''" by code_simp
  have 1: "snd (split_rag_output json_loads ?raw) = PNone"
    using C7_all_strategies_fail [of json_loads ?raw] h by blast
  have 2: "fst (split_rag_output json_loads ?raw) = strip ''intro ''"
    using C7_all_strategies_fail [of json_loads ?raw] h m d n by blast
  let ?raw2 = "''no structured part''"
  have h2: "marker_stage json_loads (normalise ?raw2) = PNone
   \<and> fenced_stage json_loads (normalise ?raw2) PNone = PNone
   \<and> anchor_stage json_loads (normalise ?raw2) PNone = PNone" by code_simp
  have m2: "marker_search (normalise ?raw2) = None" by code_simp
  have 3: "snd (split_rag_output json_loads ?raw2) = PNone"
    using C7_all_strategies_fail [of json_loads ?raw2] h2 by blast
  have 4: "fst (split_rag_output json_loads ?raw2) = ?raw2"
    using C7_all_strategies_fail [of json_loads ?raw2] h2 m2 by blast
  show ?thesis using 1 2 3 4 s by (simp add: prod_eq_iff)
qed

text \<open>
  Claim C7 as stated fails.  A text cut off after the start marker and an opening brace
  has a start marker and no JSON that could be decoded, all three strategies fail, and the
  explanation is the full text, not the text before the marker.  Where the marker pattern
  does match and its JSON is not decoded, the explanation is the text before the marker
  without its trailing white space.
\<close>

theorem C7_all_strategies_fail_counterexample:
  "marker_stage json_loads (normalise ''intro ### JSON_START {'') = PNone
   \<and> fenced_stage json_loads (normalise ''intro ### JSON_START {'') PNone = PNone
   \<and> anchor_stage json_loads (normalise ''intro ### JSON_START {'') PNone = PNone
   \<and> split_rag_output json_loads ''intro ### JSON_START {'' = (''intro ### JSON_START {'', PNone)
   \<and> split_rag_output json_loads ''intro ### JSON_START {x} ### JSON_END'' = (''intro'', PNone)
   \<and> take 6 ''intro ### JSON_START {x} ### JSON_END'' = ''intro ''"
  by code_simp

subsection \<open>The working copy of a text with a marker region\<close>














subsection \<open>The marker pattern on a delimited region\<close>












section \<open>Properties of the report assembler\<close>























































end
